theory Spec2Isabelle
  imports Main
begin

section \<open>The element type \<open>T\<close>\<close>

text \<open>
  \<open>vector.h\<close> is a template over the element type \<open>T\<close>. What the container does
  depends on \<open>T\<close> only through the operations below, so they are a parameter of every
  function of the model:
  \<^item> which constructions and assignments throw, as predicates on the source value;
  \<^item> \<open>moved_from x\<close>, the value a source object is left with after \<open>T(std::move(x))\<close> or
    \<open>y = std::move(x)\<close> (for \<open>int\<close> the value itself, for \<open>std::string\<close> the empty string,
    for \<open>std::unique_ptr\<close> the null pointer);
  \<^item> the two type traits tested by \<open>if constexpr\<close> in \<open>Reserve\<close> and \<open>Emplace\<close>;
  \<^item> \<open>sizeof_T\<close>, the value of \<open>sizeof(T)\<close>, and \<open>alloc_fails b\<close>, whether \<open>operator new(b)\<close>
    throws \<open>std::bad_alloc\<close> on a request for \<open>b\<close> bytes.

  \<open>size_t\<close> has 64 bits. The product \<open>n * sizeof(T)\<close> of \<open>Allocate\<close> is computed modulo
  \<open>2^64\<close>, as line 78 does, so a block can have fewer slots than the capacity asked for;
  constructing an object behind the last slot of a new block is undefined behaviour. Sizes
  and positions themselves are of type \<open>nat\<close>: \<open>size_\<close> counts objects that lie in one
  allocated block, and \<open>size_ * 2\<close> in \<open>Emplace\<close> would need a block of \<open>2^63\<close> objects to
  wrap. Destructors do not throw.

  An exception is a value of type \<open>error\<close>: \<open>bad_alloc\<close> from the allocation,
  \<open>element_exception\<close> from a constructor or an assignment of \<open>T\<close>, \<open>assertion_failed\<close> for
  an \<open>assert\<close> of the source that does not hold, and \<open>undefined_behaviour\<close> for the read of
  an object that is not alive and for the construction of an object outside a new block.
  After \<open>undefined_behaviour\<close> the state a function reports has no meaning.
\<close>

datatype error = bad_alloc | element_exception | assertion_failed | undefined_behaviour

record 'a elem_type =
  copy_throws :: "'a \<Rightarrow> bool"
  move_throws :: "'a \<Rightarrow> bool"
  copy_assign_throws :: "'a \<Rightarrow> bool"
  move_assign_throws :: "'a \<Rightarrow> bool"
  moved_from :: "'a \<Rightarrow> 'a"
  nothrow_move_constructible :: bool
  copy_constructible :: bool
  sizeof_T :: nat
  alloc_fails :: "nat \<Rightarrow> bool"

text \<open>
  The arguments forwarded to \<open>T\<close>'s constructor by \<open>Emplace\<close>, \<open>EmplaceBack\<close>, \<open>PushBack\<close>
  and \<open>Insert\<close>: an lvalue (\<open>const T&\<close>, copy construction) or an rvalue (\<open>T&&\<close>, move
  construction) that lives outside the vector.
\<close>

datatype 'a ctor_args = Copy_of 'a | Move_of 'a

fun construct :: "'a elem_type \<Rightarrow> 'a ctor_args \<Rightarrow> error + 'a" where
  "construct T (Copy_of x) = (if copy_throws T x then Inl element_exception else Inr x)"
| "construct T (Move_of x) = (if move_throws T x then Inl element_exception else Inr x)"

section \<open>Raw memory and the standard algorithms on it\<close>

text \<open>
  A block of raw memory is a list of slots: \<open>None\<close> is uninitialised memory, \<open>Some x\<close> a
  live object of value \<open>x\<close>. A pointer into a block is the index of its slot. Reading the
  value of a slot that holds no live object is undefined behaviour and reported as such.
  The algorithms of \<open><memory>\<close> and \<open><algorithm>\<close> that the source calls are written as the
  loops the C++ standard specifies for them.
\<close>

type_synonym 'a block = "'a option list"

definition slot_at :: "'a block \<Rightarrow> nat \<Rightarrow> 'a option" where
  "slot_at buf i = (if i < length buf then buf ! i else None)"

text \<open>Placement \<open>new (p) T(x)\<close> and \<open>std::destroy_at(p)\<close>.\<close>

definition construct_at :: "'a block \<Rightarrow> nat \<Rightarrow> 'a \<Rightarrow> 'a block" where
  "construct_at buf i x = buf[i := Some x]"

definition destroy_at :: "'a block \<Rightarrow> nat \<Rightarrow> 'a block" where
  "destroy_at buf i = buf[i := None]"

text \<open>\<open>std::destroy_n(first, n)\<close>.\<close>

fun destroy_n :: "'a block \<Rightarrow> nat \<Rightarrow> nat \<Rightarrow> 'a block" where
  "destroy_n buf first 0 = buf"
| "destroy_n buf first (Suc n) = destroy_n (destroy_at buf first) (Suc first) n"

text \<open>The objects still alive in a block, in slot order.\<close>

definition live_objects :: "'a block \<Rightarrow> 'a list" where
  "live_objects buf = map the (filter (\<lambda>s. s \<noteq> None) buf)"

text \<open>
  \<open>std::uninitialized_copy_n(first, n, d_first)\<close> from one block into another: copy
  constructs \<open>n\<close> objects; when a constructor throws, the objects constructed so far
  (\<open>[d_first, cur)\<close>) are destroyed and the exception is rethrown. A constructor that
  does not throw writes its object at \<open>cur\<close>; behind the last slot of the destination block
  that is undefined behaviour. The result is the exception, if any, and the destination
  block.
\<close>

fun uninitialized_copy_loop ::
  "'a elem_type \<Rightarrow> 'a block \<Rightarrow> nat \<Rightarrow> 'a block \<Rightarrow> nat \<Rightarrow> nat \<Rightarrow> nat \<Rightarrow> error option \<times> 'a block" where
  "uninitialized_copy_loop T src first dst d_first cur 0 = (None, dst)"
| "uninitialized_copy_loop T src first dst d_first cur (Suc n) =
     (case slot_at src first of
        None \<Rightarrow> (Some undefined_behaviour, destroy_n dst d_first (cur - d_first))
      | Some x \<Rightarrow>
          if copy_throws T x then (Some element_exception, destroy_n dst d_first (cur - d_first))
          else if \<not> cur < length dst
          then (Some undefined_behaviour, destroy_n dst d_first (cur - d_first))
          else uninitialized_copy_loop T src (Suc first) (construct_at dst cur x) d_first (Suc cur) n)"

definition uninitialized_copy_n ::
  "'a elem_type \<Rightarrow> 'a block \<Rightarrow> nat \<Rightarrow> nat \<Rightarrow> 'a block \<Rightarrow> nat \<Rightarrow> error option \<times> 'a block" where
  "uninitialized_copy_n T src first n dst d_first =
     uninitialized_copy_loop T src first dst d_first d_first n"

text \<open>
  \<open>std::uninitialized_move_n(first, n, d_first)\<close>: the same with move construction; each
  source object stays alive with its moved-from value. The result is the exception, if
  any, the source block and the destination block.
\<close>

fun uninitialized_move_loop ::
  "'a elem_type \<Rightarrow> 'a block \<Rightarrow> nat \<Rightarrow> 'a block \<Rightarrow> nat \<Rightarrow> nat \<Rightarrow> nat
     \<Rightarrow> error option \<times> 'a block \<times> 'a block" where
  "uninitialized_move_loop T src first dst d_first cur 0 = (None, src, dst)"
| "uninitialized_move_loop T src first dst d_first cur (Suc n) =
     (case slot_at src first of
        None \<Rightarrow> (Some undefined_behaviour, src, destroy_n dst d_first (cur - d_first))
      | Some x \<Rightarrow>
          if move_throws T x
          then (Some element_exception, src, destroy_n dst d_first (cur - d_first))
          else if \<not> cur < length dst
          then (Some undefined_behaviour, src, destroy_n dst d_first (cur - d_first))
          else uninitialized_move_loop T (src[first := Some (moved_from T x)]) (Suc first)
                 (construct_at dst cur x) d_first (Suc cur) n)"

definition uninitialized_move_n ::
  "'a elem_type \<Rightarrow> 'a block \<Rightarrow> nat \<Rightarrow> nat \<Rightarrow> 'a block \<Rightarrow> nat
     \<Rightarrow> error option \<times> 'a block \<times> 'a block" where
  "uninitialized_move_n T src first n dst d_first =
     uninitialized_move_loop T src first dst d_first d_first n"

text \<open>
  \<open>std::copy_n(first, n, d_first)\<close> from one block into another: \<open>n\<close> copy assignments
  onto live objects. An exception leaves the objects assigned so far as they are.
\<close>

fun copy_n ::
  "'a elem_type \<Rightarrow> 'a block \<Rightarrow> nat \<Rightarrow> nat \<Rightarrow> 'a block \<Rightarrow> nat \<Rightarrow> error option \<times> 'a block" where
  "copy_n T src first 0 dst d_first = (None, dst)"
| "copy_n T src first (Suc n) dst d_first =
     (case slot_at src first of
        None \<Rightarrow> (Some undefined_behaviour, dst)
      | Some x \<Rightarrow>
          if copy_assign_throws T x then (Some element_exception, dst)
          else copy_n T src (Suc first) n (dst[d_first := Some x]) (Suc d_first))"

text \<open>
  One move assignment \<open>buf[d] = std::move(buf[s])\<close> inside a block: the destination takes
  the value, the source keeps its moved-from value.
\<close>

definition move_assign_at :: "'a elem_type \<Rightarrow> 'a block \<Rightarrow> nat \<Rightarrow> nat \<Rightarrow> error option \<times> 'a block" where
  "move_assign_at T buf s d =
     (case slot_at buf s of
        None \<Rightarrow> (Some undefined_behaviour, buf)
      | Some x \<Rightarrow>
          if move_assign_throws T x then (Some element_exception, buf)
          else (None, buf[d := Some x, s := Some (moved_from T x)]))"

text \<open>
  The algorithm \<open>std::move(first, last, d_first)\<close> inside one block: move assignments
  front to back.
\<close>

fun std_move_loop :: "'a elem_type \<Rightarrow> 'a block \<Rightarrow> nat \<Rightarrow> nat \<Rightarrow> nat \<Rightarrow> error option \<times> 'a block" where
  "std_move_loop T buf first d_first 0 = (None, buf)"
| "std_move_loop T buf first d_first (Suc n) =
     (case move_assign_at T buf first d_first of
        (Some e, buf') \<Rightarrow> (Some e, buf')
      | (None, buf') \<Rightarrow> std_move_loop T buf' (Suc first) (Suc d_first) n)"

definition std_move :: "'a elem_type \<Rightarrow> 'a block \<Rightarrow> nat \<Rightarrow> nat \<Rightarrow> nat \<Rightarrow> error option \<times> 'a block" where
  "std_move T buf first lst d_first = std_move_loop T buf first d_first (lst - first)"

text \<open>
  \<open>std::move_backward(first, last, d_last)\<close> inside one block: move assignments back to
  front, \<open>*(--d_last) = std::move(*(--last))\<close> while \<open>first != last\<close>.
\<close>

fun move_backward_loop :: "'a elem_type \<Rightarrow> 'a block \<Rightarrow> nat \<Rightarrow> nat \<Rightarrow> nat \<Rightarrow> error option \<times> 'a block" where
  "move_backward_loop T buf lst d_last 0 = (None, buf)"
| "move_backward_loop T buf lst d_last (Suc n) =
     (case move_assign_at T buf (lst - 1) (d_last - 1) of
        (Some e, buf') \<Rightarrow> (Some e, buf')
      | (None, buf') \<Rightarrow> move_backward_loop T buf' (lst - 1) (d_last - 1) n)"

definition move_backward :: "'a elem_type \<Rightarrow> 'a block \<Rightarrow> nat \<Rightarrow> nat \<Rightarrow> nat \<Rightarrow> error option \<times> 'a block" where
  "move_backward T buf first lst d_last = move_backward_loop T buf lst d_last (lst - first)"

section \<open>\<open>RawMemory<T>\<close>\<close>

text \<open>
  A name cannot end in an underscore here, so the data members \<open>buffer_\<close>,
  \<open>capacity_\<close>, \<open>data_\<close> and \<open>size_\<close> of the source are the fields \<open>m_buffer\<close>,
  \<open>m_capacity\<close>, \<open>m_data\<close> and \<open>m_size\<close>. The pointer \<open>buffer_\<close> is modelled by the block it
  points to: a \<open>RawMemory\<close> owns its block and no two of them share one.
\<close>

record 'a RawMemory =
  m_buffer :: "'a block"
  m_capacity :: nat

text \<open>
  \<open>Allocate(n)\<close>, line 78: the null pointer for \<open>n = 0\<close>, else the block that
  \<open>operator new\<close> returns for \<open>n * sizeof(T)\<close> bytes, the product taken in \<open>size_t\<close>. The block
  has as many slots as objects of \<open>T\<close> fit into that many bytes.
\<close>

definition size_t_mult :: "nat \<Rightarrow> nat \<Rightarrow> nat" where
  "size_t_mult a b = nat ((int a * int b) mod 2 ^ 64)"

definition Allocate :: "'a elem_type \<Rightarrow> nat \<Rightarrow> error + 'a block" where
  "Allocate T n =
     (if n \<noteq> 0 then
        (if alloc_fails T (size_t_mult n (sizeof_T T)) then Inl bad_alloc
         else Inr (replicate (size_t_mult n (sizeof_T T) div sizeof_T T) None))
      else Inr [])"

text \<open>The byte size of \<open>n\<close> objects of \<open>T\<close> is a value of \<open>size_t\<close>.\<close>

definition fits :: "'a elem_type \<Rightarrow> nat \<Rightarrow> bool" where
  "fits T n \<longleftrightarrow> 0 < sizeof_T T \<and> n * sizeof_T T < 2 ^ 64"

definition RawMemory_default :: "'a RawMemory" where
  "RawMemory_default = \<lparr>m_buffer = [], m_capacity = 0\<rparr>"

definition RawMemory_ctor :: "'a elem_type \<Rightarrow> nat \<Rightarrow> error + 'a RawMemory" where
  "RawMemory_ctor T capacity =
     (case Allocate T capacity of
        Inl e \<Rightarrow> Inl e
      | Inr buf \<Rightarrow> Inr \<lparr>m_buffer = buf, m_capacity = capacity\<rparr>)"

text \<open>
  \<open>~RawMemory()\<close> releases the block without running any destructor: the objects still
  alive in it are lost. The model returns them.
\<close>

definition RawMemory_dtor :: "'a RawMemory \<Rightarrow> 'a list" where
  "RawMemory_dtor m = live_objects (m_buffer m)"

definition RawMemory_Swap :: "'a RawMemory \<times> 'a RawMemory \<Rightarrow> 'a RawMemory \<times> 'a RawMemory" where
  "RawMemory_Swap p =
     (case p of (m, other) \<Rightarrow>
        (\<lparr>m_buffer = m_buffer other, m_capacity = m_capacity other\<rparr>,
         \<lparr>m_buffer = m_buffer m, m_capacity = m_capacity m\<rparr>))"

section \<open>\<open>Vector<T>\<close>\<close>

record 'a Vector =
  m_data :: "'a RawMemory"
  m_size :: nat

text \<open>
  The outcome of a member function that can throw: the value returned or the exception,
  the vector afterwards, and the objects lost because a block was released while they
  were alive.
\<close>

datatype ('a, 'r) result =
  Result (outcome: "error + 'r") (vec: "'a Vector") (leaked: "'a list")

definition Vector_default :: "'a Vector" where
  "Vector_default = \<lparr>m_data = RawMemory_default, m_size = 0\<rparr>"

definition Size :: "'a Vector \<Rightarrow> nat" where
  "Size v = m_size v"

definition Capacity :: "'a Vector \<Rightarrow> nat" where
  "Capacity v = m_capacity (m_data v)"

definition with_buffer :: "'a Vector \<Rightarrow> 'a block \<Rightarrow> 'a Vector" where
  "with_buffer v buf =
     \<lparr>m_data = \<lparr>m_buffer = buf, m_capacity = m_capacity (m_data v)\<rparr>, m_size = m_size v\<rparr>"

text \<open>\<open>Swap(other)\<close> on the pair \<open>(*this, other)\<close>.\<close>

definition Swap :: "'a Vector \<times> 'a Vector \<Rightarrow> 'a Vector \<times> 'a Vector" where
  "Swap p =
     (case p of (v, other) \<Rightarrow>
        (case RawMemory_Swap (m_data v, m_data other) of (d, d') \<Rightarrow>
           (\<lparr>m_data = d, m_size = m_size other\<rparr>, \<lparr>m_data = d', m_size = m_size v\<rparr>)))"

text \<open>
  \<open>Vector(const Vector& other)\<close>. When a copy throws, \<open>uninitialized_copy_n\<close> has destroyed
  what it built and the member \<open>m_data\<close> is released.
\<close>

definition Vector_copy_ctor :: "'a elem_type \<Rightarrow> 'a Vector \<Rightarrow> (error + 'a Vector) \<times> 'a list" where
  "Vector_copy_ctor T other =
     (case RawMemory_ctor T (m_size other) of
        Inl e \<Rightarrow> (Inl e, [])
      | Inr d \<Rightarrow>
          (case uninitialized_copy_n T (m_buffer (m_data other)) 0 (m_size other) (m_buffer d) 0 of
             (Some e, buf) \<Rightarrow> (Inl e, RawMemory_dtor \<lparr>m_buffer = buf, m_capacity = m_capacity d\<rparr>)
           | (None, buf) \<Rightarrow>
               (Inr \<lparr>m_data = \<lparr>m_buffer = buf, m_capacity = m_capacity d\<rparr>, m_size = m_size other\<rparr>, [])))"

text \<open>
  \<open>Vector(Vector&& other) noexcept\<close>: the new, default-initialised vector swaps with
  \<open>other\<close>. The result is the pair of the new vector and \<open>other\<close> afterwards.
\<close>

definition Vector_move_ctor :: "'a Vector \<Rightarrow> 'a Vector \<times> 'a Vector" where
  "Vector_move_ctor other = Swap (Vector_default, other)"

text \<open>\<open>~Vector()\<close>: destroys \<open>m_size\<close> objects, then \<open>m_data\<close> is released.\<close>

definition Vector_dtor :: "'a Vector \<Rightarrow> 'a list" where
  "Vector_dtor v = RawMemory_dtor (m_data (with_buffer v (destroy_n (m_buffer (m_data v)) 0 (m_size v))))"

text \<open>
  The common end of a reallocation: \<open>std::destroy_n(data_.GetAddress(), size_)\<close>, then
  \<open>data_.Swap(new_data)\<close>, then \<open>new_data\<close>, which now holds the old block, goes out of scope.
\<close>

definition destroy_and_adopt :: "'a Vector \<Rightarrow> 'a RawMemory \<Rightarrow> 'a Vector \<times> 'a list" where
  "destroy_and_adopt v new_data =
     (case RawMemory_Swap
             (m_data (with_buffer v (destroy_n (m_buffer (m_data v)) 0 (m_size v))), new_data) of
        (d, old) \<Rightarrow> (\<lparr>m_data = d, m_size = m_size v\<rparr>, RawMemory_dtor old))"

text \<open>\<open>Reserve(new_capacity)\<close>, lines 168 to 181.\<close>

definition Reserve :: "'a elem_type \<Rightarrow> nat \<Rightarrow> 'a Vector \<Rightarrow> ('a, unit) result" where
  "Reserve T new_capacity v =
     (if new_capacity \<le> m_capacity (m_data v) then Result (Inr ()) v []
      else
        (case RawMemory_ctor T new_capacity of
           Inl e \<Rightarrow> Result (Inl e) v []
         | Inr new_data \<Rightarrow>
             if nothrow_move_constructible T \<or> \<not> copy_constructible T then
               (case uninitialized_move_n T (m_buffer (m_data v)) 0 (m_size v)
                       (m_buffer new_data) 0 of
                  (Some e, src, dst) \<Rightarrow>
                    Result (Inl e) (with_buffer v src)
                      (RawMemory_dtor \<lparr>m_buffer = dst, m_capacity = m_capacity new_data\<rparr>)
                | (None, src, dst) \<Rightarrow>
                    (case destroy_and_adopt (with_buffer v src)
                            \<lparr>m_buffer = dst, m_capacity = m_capacity new_data\<rparr> of
                       (v', l) \<Rightarrow> Result (Inr ()) v' l))
             else
               (case uninitialized_copy_n T (m_buffer (m_data v)) 0 (m_size v)
                       (m_buffer new_data) 0 of
                  (Some e, dst) \<Rightarrow>
                    Result (Inl e) v
                      (RawMemory_dtor \<lparr>m_buffer = dst, m_capacity = m_capacity new_data\<rparr>)
                | (None, dst) \<Rightarrow>
                    (case destroy_and_adopt v
                            \<lparr>m_buffer = dst, m_capacity = m_capacity new_data\<rparr> of
                       (v', l) \<Rightarrow> Result (Inr ()) v' l))))"

text \<open>\<open>PopBack()\<close>, lines 218 to 223.\<close>

definition PopBack :: "'a Vector \<Rightarrow> 'a Vector" where
  "PopBack v =
     (if m_size v > 0
      then \<lparr>m_data = \<lparr>m_buffer = destroy_at (m_buffer (m_data v)) (m_size v - 1),
                      m_capacity = m_capacity (m_data v)\<rparr>,
            m_size = m_size v - 1\<rparr>
      else v)"

text \<open>
  \<open>new (data_ + d) T(std::move(data_[s]))\<close>: a move construction whose source is an
  element of the same block.
\<close>

definition move_construct_at :: "'a elem_type \<Rightarrow> 'a block \<Rightarrow> nat \<Rightarrow> nat \<Rightarrow> error option \<times> 'a block" where
  "move_construct_at T buf s d =
     (case slot_at buf s of
        None \<Rightarrow> (Some undefined_behaviour, buf)
      | Some x \<Rightarrow>
          if move_throws T x then (Some element_exception, buf)
          else (None, construct_at (buf[s := Some (moved_from T x)]) d x))"

text \<open>
  The branch \<open>size_ == Capacity()\<close> of \<open>Emplace\<close>, lines 243 to 260. The new element is
  constructed first, at its final place in the new block, which is undefined behaviour
  when the block has no such slot; then the prefix and the suffix are moved or copied
  around it. In the copying case the handler of line 254 destroys
  the one object at \<open>new_data + position\<close> and rethrows. Leaving the function releases
  \<open>new_data\<close>.
\<close>

definition Emplace_realloc :: "'a elem_type \<Rightarrow> nat \<Rightarrow> 'a ctor_args \<Rightarrow> 'a Vector \<Rightarrow> ('a, unit) result" where
  "Emplace_realloc T position args v =
     (case RawMemory_ctor T (if m_size v = 0 then 1 else m_size v * 2) of
        Inl e \<Rightarrow> Result (Inl e) v []
      | Inr new_data \<Rightarrow>
          (case construct T args of
             Inl e \<Rightarrow> Result (Inl e) v (RawMemory_dtor new_data)
           | Inr x \<Rightarrow>
               if \<not> position < length (m_buffer new_data)
               then Result (Inl undefined_behaviour) v (RawMemory_dtor new_data)
               else if nothrow_move_constructible T \<or> \<not> copy_constructible T then
                 (case uninitialized_move_n T (m_buffer (m_data v)) 0 position
                         (construct_at (m_buffer new_data) position x) 0 of
                    (Some e, src, dst) \<Rightarrow>
                      Result (Inl e) (with_buffer v src)
                        (RawMemory_dtor \<lparr>m_buffer = dst, m_capacity = m_capacity new_data\<rparr>)
                  | (None, src, dst) \<Rightarrow>
                      (case uninitialized_move_n T src position (m_size v - position)
                              dst (position + 1) of
                         (Some e, src', dst') \<Rightarrow>
                           Result (Inl e) (with_buffer v src')
                             (RawMemory_dtor \<lparr>m_buffer = dst', m_capacity = m_capacity new_data\<rparr>)
                       | (None, src', dst') \<Rightarrow>
                           (case destroy_and_adopt (with_buffer v src')
                                   \<lparr>m_buffer = dst', m_capacity = m_capacity new_data\<rparr> of
                              (v', l) \<Rightarrow> Result (Inr ()) v' l)))
               else
                 (case uninitialized_copy_n T (m_buffer (m_data v)) 0 position
                         (construct_at (m_buffer new_data) position x) 0 of
                    (Some e, dst) \<Rightarrow>
                      Result (Inl e) v
                        (RawMemory_dtor
                           \<lparr>m_buffer = destroy_n dst position 1, m_capacity = m_capacity new_data\<rparr>)
                  | (None, dst) \<Rightarrow>
                      (case uninitialized_copy_n T (m_buffer (m_data v)) position
                              (m_size v - position) dst (position + 1) of
                         (Some e, dst') \<Rightarrow>
                           Result (Inl e) v
                             (RawMemory_dtor
                                \<lparr>m_buffer = destroy_n dst' position 1,
                                 m_capacity = m_capacity new_data\<rparr>)
                       | (None, dst') \<Rightarrow>
                           (case destroy_and_adopt v
                                   \<lparr>m_buffer = dst', m_capacity = m_capacity new_data\<rparr> of
                              (v', l) \<Rightarrow> Result (Inr ()) v' l)))))"

text \<open>
  The branch \<open>size_ < Capacity()\<close> of \<open>Emplace\<close>, lines 263 to 274: the last element is
  move constructed into the slot after it, \<open>[position, end)\<close> is moved backward to end at
  \<open>end() + 1\<close> (the handler of line 268 destroys the object at \<open>end()\<close>), the object at
  \<open>position\<close> is destroyed and the new element is constructed in its place.
\<close>

definition Emplace_inplace :: "'a elem_type \<Rightarrow> nat \<Rightarrow> 'a ctor_args \<Rightarrow> 'a Vector \<Rightarrow> ('a, unit) result" where
  "Emplace_inplace T position args v =
     (if m_size v \<noteq> 0 then
        (case move_construct_at T (m_buffer (m_data v)) (m_size v - 1) (m_size v) of
           (Some e, buf) \<Rightarrow> Result (Inl e) (with_buffer v buf) []
         | (None, buf) \<Rightarrow>
             (case move_backward T buf position (m_size v) (m_size v + 1) of
                (Some e, buf') \<Rightarrow> Result (Inl e) (with_buffer v (destroy_n buf' (m_size v) 1)) []
              | (None, buf') \<Rightarrow>
                  (case construct T args of
                     Inl e \<Rightarrow> Result (Inl e) (with_buffer v (destroy_at buf' position)) []
                   | Inr x \<Rightarrow>
                       Result (Inr ())
                         (with_buffer v (construct_at (destroy_at buf' position) position x)) [])))
      else
        (case construct T args of
           Inl e \<Rightarrow> Result (Inl e) v []
         | Inr x \<Rightarrow> Result (Inr ()) (with_buffer v (construct_at (m_buffer (m_data v)) position x)) []))"

text \<open>
  \<open>Emplace(pos, args...)\<close>, lines 238 to 278, with \<open>position = pos - begin()\<close>. The
  assertion of line 240 is \<open>position \<le> size_\<close>. The value returned is the position.
\<close>

definition Emplace :: "'a elem_type \<Rightarrow> nat \<Rightarrow> 'a ctor_args \<Rightarrow> 'a Vector \<Rightarrow> ('a, nat) result" where
  "Emplace T position args v =
     (if \<not> position \<le> m_size v then Result (Inl assertion_failed) v []
      else
        (case (if m_size v = Capacity v then Emplace_realloc T position args v
               else Emplace_inplace T position args v) of
           Result (Inl e) v' l \<Rightarrow> Result (Inl e) v' l
         | Result (Inr u) v' l \<Rightarrow>
             Result (Inr position) \<lparr>m_data = m_data v', m_size = m_size v' + 1\<rparr> l))"

text \<open>
  \<open>EmplaceBack(args...)\<close>, lines 225 to 235. The reference returned is modelled by the
  index of the element it refers to.
\<close>

definition EmplaceBack :: "'a elem_type \<Rightarrow> 'a ctor_args \<Rightarrow> 'a Vector \<Rightarrow> ('a, nat) result" where
  "EmplaceBack T args v =
     (if m_size v = Capacity v then
        (case Emplace T (m_size v) args v of
           Result (Inl e) v' l \<Rightarrow> Result (Inl e) v' l
         | Result (Inr p) v' l \<Rightarrow> Result (Inr (m_size v' - 1)) v' l)
      else
        (case construct T args of
           Inl e \<Rightarrow> Result (Inl e) v []
         | Inr x \<Rightarrow>
             Result (Inr (m_size v))
               \<lparr>m_data = m_data (with_buffer v (construct_at (m_buffer (m_data v)) (m_size v) x)),
                m_size = m_size v + 1\<rparr> []))"

text \<open>\<open>PushBack(value)\<close>, lines 213 to 216.\<close>

definition PushBack :: "'a elem_type \<Rightarrow> 'a ctor_args \<Rightarrow> 'a Vector \<Rightarrow> ('a, unit) result" where
  "PushBack T value v =
     (case EmplaceBack T value v of
        Result (Inl e) v' l \<Rightarrow> Result (Inl e) v' l
      | Result (Inr r) v' l \<Rightarrow> Result (Inr ()) v' l)"

text \<open>\<open>Insert(pos, const T& value)\<close> and \<open>Insert(pos, T&& value)\<close>, lines 289 to 295.\<close>

definition Insert :: "'a elem_type \<Rightarrow> nat \<Rightarrow> 'a \<Rightarrow> 'a Vector \<Rightarrow> ('a, nat) result" where
  "Insert T position value v = Emplace T position (Copy_of value) v"

definition Insert_rvalue :: "'a elem_type \<Rightarrow> nat \<Rightarrow> 'a \<Rightarrow> 'a Vector \<Rightarrow> ('a, nat) result" where
  "Insert_rvalue T position value v = Emplace T position (Move_of value) v"

text \<open>
  \<open>Erase(pos)\<close>, lines 280 to 287, with \<open>position = pos - begin()\<close>. The assertion of line
  281 is \<open>position < size_\<close>.
\<close>

definition Erase :: "'a elem_type \<Rightarrow> nat \<Rightarrow> 'a Vector \<Rightarrow> ('a, nat) result" where
  "Erase T position v =
     (if \<not> position < m_size v then Result (Inl assertion_failed) v []
      else
        (case std_move T (m_buffer (m_data v)) (position + 1) (m_size v) position of
           (Some e, buf) \<Rightarrow> Result (Inl e) (with_buffer v buf) []
         | (None, buf) \<Rightarrow>
             Result (Inr position)
               \<lparr>m_data = m_data (with_buffer v (destroy_at buf (m_size v - 1))),
                m_size = m_size v - 1\<rparr> []))"

text \<open>\<open>ResizeToSmallerRhs(rhs)\<close>, lines 301 to 310.\<close>

definition ResizeToSmallerRhs :: "'a elem_type \<Rightarrow> 'a Vector \<Rightarrow> 'a Vector \<Rightarrow> ('a, unit) result" where
  "ResizeToSmallerRhs T rhs v =
     (case copy_n T (m_buffer (m_data rhs)) 0 (min (m_size v) (m_size rhs))
             (m_buffer (m_data v)) 0 of
        (Some e, buf) \<Rightarrow> Result (Inl e) (with_buffer v buf) []
      | (None, buf) \<Rightarrow>
          if m_size v > m_size rhs then
            Result (Inr ())
              \<lparr>m_data = m_data (with_buffer v (destroy_n buf (m_size rhs) (m_size v - m_size rhs))),
               m_size = m_size rhs\<rparr> []
          else
            (case uninitialized_copy_n T (m_buffer (m_data rhs)) (m_size v)
                    (m_size rhs - m_size v) buf (m_size v) of
               (Some e, buf') \<Rightarrow> Result (Inl e) (with_buffer v buf') []
             | (None, buf') \<Rightarrow>
                 Result (Inr ()) \<lparr>m_data = m_data (with_buffer v buf'), m_size = m_size rhs\<rparr> []))"

section \<open>Assignment between vector objects\<close>

text \<open>
  Both assignment operators compare the addresses of their operands
  (\<open>this != &rhs\<close>), so they are modelled on a store, a map from addresses to vector
  objects. The local \<open>rhs_copy\<close> of the copy assignment is destroyed at the end of its
  block, after the swap.
\<close>

type_synonym 'a store = "nat \<Rightarrow> 'a Vector"

definition copy_assign ::
  "'a elem_type \<Rightarrow> 'a store \<Rightarrow> nat \<Rightarrow> nat \<Rightarrow> (error + unit) \<times> 'a store \<times> 'a list" where
  "copy_assign T st this rhs =
     (if this \<noteq> rhs then
        (if m_size (st rhs) > m_capacity (m_data (st this)) then
           (case Vector_copy_ctor T (st rhs) of
              (Inl e, l) \<Rightarrow> (Inl e, st, l)
            | (Inr rhs_copy, l) \<Rightarrow>
                (case Swap (st this, rhs_copy) of
                   (v', rhs_copy') \<Rightarrow> (Inr (), st(this := v'), l @ Vector_dtor rhs_copy')))
         else
           (case ResizeToSmallerRhs T (st rhs) (st this) of
              Result r v' l \<Rightarrow> (r, st(this := v'), l)))
      else (Inr (), st, []))"

definition move_assign :: "'a store \<Rightarrow> nat \<Rightarrow> nat \<Rightarrow> 'a store" where
  "move_assign st this rhs =
     (if this \<noteq> rhs then
        (case Swap (st this, st rhs) of (v', rhs') \<Rightarrow> st(this := v', rhs := rhs'))
      else st)"

section \<open>The representation invariant and the abstract contents\<close>

text \<open>
  A vector is well formed when its block has \<open>capacity_\<close> slots, \<open>size_ \<le> capacity_\<close>,
  the first \<open>size_\<close> slots hold live objects and the other slots are uninitialised.
\<close>

definition Vector_inv :: "'a Vector \<Rightarrow> bool" where
  "Vector_inv v \<longleftrightarrow>
     length (m_buffer (m_data v)) = m_capacity (m_data v) \<and>
     m_size v \<le> m_capacity (m_data v) \<and>
     list_all (\<lambda>s. s \<noteq> None) (take (m_size v) (m_buffer (m_data v))) \<and>
     list_all (\<lambda>s. s = None) (drop (m_size v) (m_buffer (m_data v)))"

text \<open>The values of the elements, \<open>v[0], ..., v[size_ - 1]\<close>.\<close>

definition elements :: "'a Vector \<Rightarrow> 'a list" where
  "elements v = map the (take (m_size v) (m_buffer (m_data v)))"

text \<open>The well-formed vector of given capacity holding the given elements.\<close>

definition mk_vector :: "nat \<Rightarrow> 'a list \<Rightarrow> 'a Vector" where
  "mk_vector cap xs =
     \<lparr>m_data = \<lparr>m_buffer = map Some xs @ replicate (cap - length xs) None, m_capacity = cap\<rparr>,
      m_size = length xs\<rparr>"

text \<open>
  Element types used in the examples: \<open>trivial_type\<close> behaves like \<open>int\<close> (four bytes,
  nothing throws, a move is a copy); \<open>throwing_copy bad\<close> is a type of four bytes with a
  throwing copy constructor and no move constructor, whose copy throws exactly on the values
  in \<open>bad\<close>; \<open>string_type\<close> behaves like \<open>std::string\<close>, whose moved-from value is the empty
  string. Their allocations never fail.
\<close>

definition trivial_type :: "'a elem_type" where
  "trivial_type =
     \<lparr>copy_throws = (\<lambda>x. False), move_throws = (\<lambda>x. False),
      copy_assign_throws = (\<lambda>x. False), move_assign_throws = (\<lambda>x. False),
      moved_from = (\<lambda>x. x), nothrow_move_constructible = True, copy_constructible = True,
      sizeof_T = 4, alloc_fails = (\<lambda>n. False)\<rparr>"

definition throwing_copy :: "'a list \<Rightarrow> 'a elem_type" where
  "throwing_copy bad =
     \<lparr>copy_throws = (\<lambda>x. x \<in> set bad), move_throws = (\<lambda>x. x \<in> set bad),
      copy_assign_throws = (\<lambda>x. False), move_assign_throws = (\<lambda>x. False),
      moved_from = (\<lambda>x. x), nothrow_move_constructible = False, copy_constructible = True,
      sizeof_T = 4, alloc_fails = (\<lambda>n. False)\<rparr>"

text \<open>
  \<open>throwing_move_assign bad\<close> is a type whose move assignment throws exactly on the values in
  \<open>bad\<close> and whose other operations do not throw.
\<close>

definition throwing_move_assign :: "'a list \<Rightarrow> 'a elem_type" where
  "throwing_move_assign bad =
     \<lparr>copy_throws = (\<lambda>x. False), move_throws = (\<lambda>x. False),
      copy_assign_throws = (\<lambda>x. False), move_assign_throws = (\<lambda>x. x \<in> set bad),
      moved_from = (\<lambda>x. x), nothrow_move_constructible = True, copy_constructible = True,
      sizeof_T = 4, alloc_fails = (\<lambda>n. False)\<rparr>"

definition string_type :: "string elem_type" where
  "string_type =
     \<lparr>copy_throws = (\<lambda>x. False), move_throws = (\<lambda>x. False),
      copy_assign_throws = (\<lambda>x. False), move_assign_throws = (\<lambda>x. False),
      moved_from = (\<lambda>x. []), nothrow_move_constructible = True, copy_constructible = True,
      sizeof_T = 32, alloc_fails = (\<lambda>n. False)\<rparr>"

text \<open>
  \<open>unique_ptr_type\<close> behaves like \<open>std::unique_ptr\<close>: the value \<open>None\<close> is the null pointer, a
  move leaves the source null and never throws, and there is no copy constructor.
\<close>

definition unique_ptr_type :: "'a option elem_type" where
  "unique_ptr_type =
     \<lparr>copy_throws = (\<lambda>x. False), move_throws = (\<lambda>x. False),
      copy_assign_throws = (\<lambda>x. False), move_assign_throws = (\<lambda>x. False),
      moved_from = (\<lambda>x. None), nothrow_move_constructible = True, copy_constructible = False,
      sizeof_T = 8, alloc_fails = (\<lambda>n. False)\<rparr>"

text \<open>
  A run of \<open>PushBack\<close> calls with the given values, one after the other: the list of the
  vectors after each call. The run stops at the first call that throws.
\<close>

fun push_sequence :: "'a elem_type \<Rightarrow> 'a list \<Rightarrow> 'a Vector \<Rightarrow> 'a Vector list" where
  "push_sequence T [] v = []"
| "push_sequence T (x # xs) v =
     (case PushBack T (Copy_of x) v of
        Result (Inl e) v' l \<Rightarrow> []
      | Result (Inr u) v' l \<Rightarrow> v' # push_sequence T xs v')"

text \<open>A store with one vector at address 0 and another at every other address.\<close>

definition two_vectors :: "int Vector \<Rightarrow> int Vector \<Rightarrow> int store" where
  "two_vectors a b = (\<lambda>addr. if addr = 0 then a else b)"

text \<open>
  The slots of a block that hold a live object are exactly the first \<open>n\<close>.
\<close>

definition live_prefix :: "'a block \<Rightarrow> nat \<Rightarrow> bool" where
  "live_prefix buf n \<longleftrightarrow> (\<forall>i<length buf. buf ! i \<noteq> None \<longleftrightarrow> i < n)"

text \<open>
  The four operations of a client and a run of them: the vectors after each call, up to the
  first call that ends with an exception.
\<close>

datatype 'a operation =
  Op_PushBack "'a ctor_args" | Op_PopBack | Op_Insert nat "'a ctor_args" | Op_Erase nat

fun apply_operation :: "'a elem_type \<Rightarrow> 'a operation \<Rightarrow> 'a Vector \<Rightarrow> error option \<times> 'a Vector" where
  "apply_operation T (Op_PushBack a) v =
     (case PushBack T a v of Result (Inl e) v' l \<Rightarrow> (Some e, v') | Result (Inr u) v' l \<Rightarrow> (None, v'))"
| "apply_operation T Op_PopBack v = (None, PopBack v)"
| "apply_operation T (Op_Insert p a) v =
     (case Emplace T p a v of Result (Inl e) v' l \<Rightarrow> (Some e, v') | Result (Inr u) v' l \<Rightarrow> (None, v'))"
| "apply_operation T (Op_Erase p) v =
     (case Erase T p v of Result (Inl e) v' l \<Rightarrow> (Some e, v') | Result (Inr u) v' l \<Rightarrow> (None, v'))"

fun run_operations :: "'a elem_type \<Rightarrow> 'a operation list \<Rightarrow> 'a Vector \<Rightarrow> 'a Vector list" where
  "run_operations T [] v = []"
| "run_operations T (x # xs) v =
     (case apply_operation T x v of
        (Some e, v') \<Rightarrow> []
      | (None, v') \<Rightarrow> v' # run_operations T xs v')"

section \<open>Facts about blocks and the standard algorithms\<close>


lemma length_destroy_n [simp]: "length (destroy_n buf first n) = length buf"
  by (induction n arbitrary: buf first) (simp_all add: destroy_at_def)


lemma nth_destroy_n:
  "i < length buf \<Longrightarrow>
   destroy_n buf first n ! i = (if first \<le> i \<and> i < first + n then None else buf ! i)"
proof (induction n arbitrary: buf first)
  case 0
  then show ?case by auto
next
  case (Suc n)
  then show ?case by (auto simp: destroy_at_def nth_list_update)
qed


lemma slot_at_Some: "slot_at buf i = Some x \<longleftrightarrow> i < length buf \<and> buf ! i = Some x"
  by (simp add: slot_at_def)




subsection \<open>\<open>uninitialized_copy_n\<close>\<close>


text \<open>
  A copy loop that stops with an exception has undone what it did: the slots from
  \<open>d_first\<close> up to the one it was about to construct are uninitialised again, the others are
  untouched. A loop that returns has filled its \<open>n\<close> slots with the source values, none of
  whose copies threw; and it returns whenever the source objects are alive and none throws.
\<close>


lemma length_uninitialized_copy_loop:
  "length (snd (uninitialized_copy_loop T src first dst d_first cur n)) = length dst"
  by (induction n arbitrary: first dst cur) (simp_all add: construct_at_def split: option.splits)


lemma uninitialized_copy_loop_rollback:
  "uninitialized_copy_loop T src first dst d_first cur n = (Some e, dst') \<Longrightarrow>
   d_first \<le> cur \<Longrightarrow>
   length dst' = length dst \<and>
   (\<exists>k<n. \<forall>i<length dst. dst' ! i = (if d_first \<le> i \<and> i < cur + k then None else dst ! i))"
proof (induction n arbitrary: first dst cur)
  case 0
  then show ?case by simp
next
  case (Suc n)
  have stop: ?case if "dst' = destroy_n dst d_first (cur - d_first)"
  proof -
    from that Suc.prems(2) have
      "\<forall>i<length dst. dst' ! i = (if d_first \<le> i \<and> i < cur + 0 then None else dst ! i)"
      by (simp add: nth_destroy_n)
    with that show ?thesis by (intro conjI exI[of _ 0]) simp_all
  qed
  show ?case
  proof (cases "slot_at src first")
    case None
    with Suc.prems show ?thesis by (intro stop) simp
  next
    case (Some x)
    show ?thesis
    proof (cases "copy_throws T x")
      case True
      with Some Suc.prems show ?thesis by (intro stop) simp
    next
      case False
      show ?thesis
      proof (cases "cur < length dst")
        case outside: False
        with False Some Suc.prems show ?thesis by (intro stop) simp
      next
        case True
        with False Some Suc.prems have
          run: "uninitialized_copy_loop T src (Suc first) (construct_at dst cur x) d_first (Suc cur) n = (Some e, dst')"
          by simp
        from Suc.IH[OF run] Suc.prems(2) obtain k where k: "k < n"
          and len: "length dst' = length dst"
          and nth: "\<forall>i<length dst. dst' ! i =
              (if d_first \<le> i \<and> i < Suc cur + k then None else construct_at dst cur x ! i)"
          by (auto simp: construct_at_def)
        have "\<forall>i<length dst. dst' ! i = (if d_first \<le> i \<and> i < cur + Suc k then None else dst ! i)"
          using nth Suc.prems(2) by (auto simp: construct_at_def nth_list_update)
        with k len show ?thesis by (intro conjI exI[of _ "Suc k"]) simp_all
      qed
    qed
  qed
qed


lemma uninitialized_copy_loop_success:
  "uninitialized_copy_loop T src first dst d_first cur n = (None, dst') \<Longrightarrow>
   length dst' = length dst \<and>
   (\<forall>i<length dst. dst' ! i = (if cur \<le> i \<and> i < cur + n then src ! (first + (i - cur)) else dst ! i)) \<and>
   (\<forall>k<n. first + k < length src \<and> src ! (first + k) \<noteq> None \<and> \<not> copy_throws T (the (src ! (first + k)))) \<and>
   cur + n \<le> max cur (length dst)"
proof (induction n arbitrary: first dst cur)
  case 0
  then show ?case by auto
next
  case (Suc n)
  from Suc.prems obtain x where x: "slot_at src first = Some x" "\<not> copy_throws T x"
    and inside: "cur < length dst"
    and run: "uninitialized_copy_loop T src (Suc first) (construct_at dst cur x) d_first (Suc cur) n = (None, dst')"
    by (auto split: option.splits if_splits)
  note IH = Suc.IH[OF run]
  from x have fx: "first < length src" "src ! first = Some x" by (simp_all add: slot_at_Some)
  have len: "length dst' = length dst" using IH by (simp add: construct_at_def)
  have nth: "dst' ! i = (if cur \<le> i \<and> i < cur + Suc n then src ! (first + (i - cur)) else dst ! i)"
    if "i < length dst" for i
  proof -
    from IH that have step: "dst' ! i = (if Suc cur \<le> i \<and> i < Suc cur + n then src ! (Suc first + (i - Suc cur)) else construct_at dst cur x ! i)"
      by (simp add: construct_at_def)
    consider "i < cur" | "i = cur" | "Suc cur \<le> i" by linarith
    then show ?thesis
    proof cases
      case 1
      with step that show ?thesis by (simp add: construct_at_def)
    next
      case 2
      with step that fx show ?thesis by (simp add: construct_at_def)
    next
      case 3
      then have "Suc first + (i - Suc cur) = first + (i - cur)" by arith
      with 3 step that show ?thesis by (auto simp: construct_at_def)
    qed
  qed
  have src_ok: "first + k < length src \<and> src ! (first + k) \<noteq> None \<and> \<not> copy_throws T (the (src ! (first + k)))"
    if "k < Suc n" for k
  proof (cases k)
    case 0
    with fx x show ?thesis by simp
  next
    case (Suc k')
    with that IH show ?thesis by auto
  qed
  have "cur + Suc n \<le> max cur (length dst)"
    using IH inside by (simp add: construct_at_def)
  with len nth src_ok show ?case by blast
qed


lemma uninitialized_copy_loop_total:
  "(\<forall>k<n. first + k < length src \<and> src ! (first + k) \<noteq> None \<and> \<not> copy_throws T (the (src ! (first + k)))) \<Longrightarrow>
   cur + n \<le> length dst \<Longrightarrow>
   fst (uninitialized_copy_loop T src first dst d_first cur n) = None"
proof (induction n arbitrary: first dst cur)
  case 0
  then show ?case by simp
next
  case (Suc n)
  from Suc.prems(1)[rule_format, of 0] obtain x where x: "src ! first = Some x" "first < length src" "\<not> copy_throws T x"
    by auto
  have "\<forall>k<n. Suc first + k < length src \<and> src ! (Suc first + k) \<noteq> None \<and> \<not> copy_throws T (the (src ! (Suc first + k)))"
    using Suc.prems(1)[rule_format, of "Suc k" for k] by simp
  moreover from Suc.prems(2) have "Suc cur + n \<le> length (construct_at dst cur x)"
    by (simp add: construct_at_def)
  ultimately have "fst (uninitialized_copy_loop T src (Suc first) (construct_at dst cur x)
                     d_first (Suc cur) n) = None"
    by (rule Suc.IH)
  with x Suc.prems(2) show ?case by (simp add: slot_at_def)
qed


lemma uninitialized_copy_loop_error:
  "uninitialized_copy_loop T src first dst d_first cur n = (Some e, dst') \<Longrightarrow>
   \<forall>k<n. slot_at src (first + k) \<noteq> None \<Longrightarrow> cur + n \<le> length dst \<Longrightarrow>
   e = element_exception"
proof (induction n arbitrary: first dst cur)
  case 0
  then show ?case by simp
next
  case (Suc n)
  from Suc.prems(2)[rule_format, of 0] obtain x where x: "slot_at src first = Some x" by auto
  show ?case
  proof (cases "copy_throws T x")
    case True
    with x Suc.prems(1) show ?thesis by simp
  next
    case False
    with x Suc.prems(1,3) have
      run: "uninitialized_copy_loop T src (Suc first) (construct_at dst cur x) d_first (Suc cur) n = (Some e, dst')"
      by simp
    have "\<forall>k<n. slot_at src (Suc first + k) \<noteq> None"
      using Suc.prems(2)[rule_format, of "Suc k" for k] by simp
    moreover from Suc.prems(3) have "Suc cur + n \<le> length (construct_at dst cur x)"
      by (simp add: construct_at_def)
    ultimately show ?thesis by (rule Suc.IH[OF run])
  qed
qed




lemma uninitialized_copy_n_rollback:
  assumes "uninitialized_copy_n T src first n dst d_first = (Some e, dst')"
    and "\<forall>i<length dst. d_first \<le> i \<longrightarrow> i < d_first + n \<longrightarrow> dst ! i = None"
  shows "dst' = dst"
proof -
  from assms(1) have run: "uninitialized_copy_loop T src first dst d_first d_first n = (Some e, dst')"
    by (simp add: uninitialized_copy_n_def)
  from uninitialized_copy_loop_rollback[OF run] obtain k where k: "k < n"
    and len: "length dst' = length dst"
    and nth: "\<forall>i<length dst. dst' ! i = (if d_first \<le> i \<and> i < d_first + k then None else dst ! i)"
    by auto
  show ?thesis
  proof (rule nth_equalityI)
    show "length dst' = length dst" by (rule len)
  next
    fix i assume "i < length dst'"
    with len have i: "i < length dst" by simp
    with nth k assms(2) show "dst' ! i = dst ! i" by auto
  qed
qed


lemma uninitialized_copy_n_slots:
  assumes "uninitialized_copy_n T (map Some xs @ pad) first n dst d_first = (None, dst')"
    and "first + n \<le> length xs"
  shows "length dst' = length dst \<and>
         (\<forall>i<length dst. dst' ! i =
            (if d_first \<le> i \<and> i < d_first + n then Some (xs ! (first + (i - d_first))) else dst ! i)) \<and>
         list_all (\<lambda>x. \<not> copy_throws T x) (take n (drop first xs))"
proof -
  let ?src = "map Some xs @ pad"
  from assms(1) have run: "uninitialized_copy_loop T ?src first dst d_first d_first n = (None, dst')"
    by (simp add: uninitialized_copy_n_def)
  note s = uninitialized_copy_loop_success[OF run]
  have src: "?src ! (first + k) = Some (xs ! (first + k))" if "k < n" for k
    using that assms(2) by (simp add: nth_append)
  have "dst' ! i =
            (if d_first \<le> i \<and> i < d_first + n then Some (xs ! (first + (i - d_first))) else dst ! i)"
    if "i < length dst" for i
  proof (cases "d_first \<le> i \<and> i < d_first + n")
    case True
    then have "i - d_first < n" by arith
    from src[OF this] s that True show ?thesis by simp
  next
    case False
    with s that show ?thesis by auto
  qed
  moreover have "list_all (\<lambda>x. \<not> copy_throws T x) (take n (drop first xs))"
    unfolding list_all_length
  proof (intro allI impI)
    fix k assume "k < length (take n (drop first xs))"
    then have k: "k < n" by simp
    with s src[OF k] assms(2) show "\<not> copy_throws T (take n (drop first xs) ! k)"
      by (auto simp: nth_append)
  qed
  ultimately show ?thesis using s by blast
qed


lemma uninitialized_copy_n_succeeds:
  assumes "list_all (\<lambda>x. \<not> copy_throws T x) (take n (drop first xs))"
    and "first + n \<le> length xs" and "d_first + n \<le> length dst"
  shows "fst (uninitialized_copy_n T (map Some xs @ pad) first n dst d_first) = None"
proof -
  have "\<forall>k<n. first + k < length (map Some xs @ pad) \<and> (map Some xs @ pad) ! (first + k) \<noteq> None \<and>
          \<not> copy_throws T (the ((map Some xs @ pad) ! (first + k)))"
  proof (intro allI impI)
    fix k assume k: "k < n"
    with assms have "\<not> copy_throws T (take n (drop first xs) ! k)"
      by (simp add: list_all_length)
    with k assms(2) show "first + k < length (map Some xs @ pad) \<and> (map Some xs @ pad) ! (first + k) \<noteq> None \<and>
          \<not> copy_throws T (the ((map Some xs @ pad) ! (first + k)))"
      by (simp add: nth_append)
  qed
  then show ?thesis
    unfolding uninitialized_copy_n_def using assms(3) by (rule uninitialized_copy_loop_total)
qed


lemma uninitialized_copy_n_error:
  assumes "uninitialized_copy_n T (map Some xs @ pad) first n dst d_first = (Some e, dst')"
    and "first + n \<le> length xs" and "d_first + n \<le> length dst"
  shows "e = element_exception"
proof -
  have "\<forall>k<n. slot_at (map Some xs @ pad) (first + k) \<noteq> None"
    using assms(2) by (simp add: slot_at_def nth_append)
  with assms(1) show ?thesis
    unfolding uninitialized_copy_n_def using assms(3) by (rule uninitialized_copy_loop_error)
qed


lemma uninitialized_copy_n_live:
  assumes "uninitialized_copy_n T src first n dst d = (None, dst')"
  shows "length dst' = length dst \<and>
         (\<forall>i<length dst. dst' ! i \<noteq> None \<longleftrightarrow> (d \<le> i \<and> i < d + n) \<or> dst ! i \<noteq> None)"
proof -
  from assms have run: "uninitialized_copy_loop T src first dst d d n = (None, dst')"
    by (simp add: uninitialized_copy_n_def)
  note s = uninitialized_copy_loop_success[OF run]
  have "dst' ! i \<noteq> None \<longleftrightarrow> (d \<le> i \<and> i < d + n) \<or> dst ! i \<noteq> None" if "i < length dst" for i
  proof (cases "d \<le> i \<and> i < d + n")
    case True
    then have "i - d < n" by arith
    with s have "src ! (first + (i - d)) \<noteq> None" by blast
    with s that True show ?thesis by simp
  next
    case False
    with s that show ?thesis by auto
  qed
  with s show ?thesis by blast
qed


lemma length_destroy_at [simp]: "length (destroy_at buf i) = length buf"
  by (simp add: destroy_at_def)


lemma length_construct_at [simp]: "length (construct_at buf i x) = length buf"
  by (simp add: construct_at_def)


subsection \<open>\<open>uninitialized_move_n\<close>\<close>


lemma uninitialized_move_loop_source:
  "uninitialized_move_loop T src first dst d_first cur n = (r, src', dst') \<Longrightarrow>
   length src' = length src \<and> (\<forall>i<length src. src' ! i \<noteq> None \<longleftrightarrow> src ! i \<noteq> None)"
proof (induction n arbitrary: src first dst cur)
  case 0
  then show ?case by simp
next
  case (Suc n)
  show ?case
  proof (cases "slot_at src first")
    case None
    with Suc.prems show ?thesis by simp
  next
    case (Some x)
    show ?thesis
    proof (cases "move_throws T x")
      case True
      with Some Suc.prems show ?thesis by simp
    next
      case False
      show ?thesis
      proof (cases "cur < length dst")
        case outside: False
        with False Some Suc.prems show ?thesis by simp
      next
        case True
        let ?src1 = "src[first := Some (moved_from T x)]"
        from True False Some Suc.prems have
          run: "uninitialized_move_loop T ?src1 (Suc first) (construct_at dst cur x) d_first (Suc cur) n
                  = (r, src', dst')"
          by simp
        from Some have fx: "first < length src" "src ! first \<noteq> None" by (simp_all add: slot_at_Some)
        have "?src1 ! i \<noteq> None \<longleftrightarrow> src ! i \<noteq> None" if "i < length src" for i
          using that fx by (cases "i = first") simp_all
        with Suc.IH[OF run] show ?thesis by simp
      qed
    qed
  qed
qed


lemma uninitialized_move_loop_live:
  "uninitialized_move_loop T src first dst d_first cur n = (None, src', dst') \<Longrightarrow>
   length dst' = length dst \<and>
   (\<forall>i<length dst. dst' ! i \<noteq> None \<longleftrightarrow> (cur \<le> i \<and> i < cur + n) \<or> dst ! i \<noteq> None)"
proof (induction n arbitrary: src first dst cur)
  case 0
  then show ?case by auto
next
  case (Suc n)
  from Suc.prems obtain x where x: "slot_at src first = Some x" "\<not> move_throws T x"
    and run: "uninitialized_move_loop T (src[first := Some (moved_from T x)]) (Suc first)
                (construct_at dst cur x) d_first (Suc cur) n = (None, src', dst')"
    by (auto split: option.splits if_splits)
  note IH = Suc.IH[OF run]
  have "dst' ! i \<noteq> None \<longleftrightarrow> (cur \<le> i \<and> i < cur + Suc n) \<or> dst ! i \<noteq> None"
    if i: "i < length dst" for i
  proof -
    from IH i have step: "dst' ! i \<noteq> None \<longleftrightarrow>
        (Suc cur \<le> i \<and> i < Suc cur + n) \<or> construct_at dst cur x ! i \<noteq> None"
      by simp
    show ?thesis
    proof (cases "i = cur")
      case True
      with step i show ?thesis by (simp add: construct_at_def)
    next
      case False
      with step i show ?thesis by (auto simp: construct_at_def)
    qed
  qed
  with IH show ?case by simp
qed


lemma uninitialized_move_loop_bound:
  "uninitialized_move_loop T src first dst d_first cur n = (None, src', dst') \<Longrightarrow>
   cur + n \<le> max cur (length dst)"
proof (induction n arbitrary: src first dst cur)
  case 0
  then show ?case by simp
next
  case (Suc n)
  from Suc.prems obtain x where inside: "cur < length dst"
    and run: "uninitialized_move_loop T (src[first := Some (moved_from T x)]) (Suc first)
                (construct_at dst cur x) d_first (Suc cur) n = (None, src', dst')"
    by (auto split: option.splits if_splits)
  from Suc.IH[OF run] inside show ?case by (simp add: construct_at_def)
qed


subsection \<open>\<open>copy_n\<close>\<close>


lemma copy_n_success:
  "copy_n T src first n dst d = (None, dst') \<Longrightarrow>
   length dst' = length dst \<and>
   (\<forall>i<length dst. dst' ! i = (if d \<le> i \<and> i < d + n then src ! (first + (i - d)) else dst ! i)) \<and>
   (\<forall>k<n. first + k < length src \<and> src ! (first + k) \<noteq> None \<and>
      \<not> copy_assign_throws T (the (src ! (first + k))))"
proof (induction n arbitrary: first dst d)
  case 0
  then show ?case by auto
next
  case (Suc n)
  from Suc.prems obtain x where x: "slot_at src first = Some x" "\<not> copy_assign_throws T x"
    and run: "copy_n T src (Suc first) n (dst[d := Some x]) (Suc d) = (None, dst')"
    by (auto split: option.splits if_splits)
  note IH = Suc.IH[OF run]
  from x have fx: "first < length src" "src ! first = Some x" by (simp_all add: slot_at_Some)
  have len: "length dst' = length dst" using IH by simp
  have nth: "dst' ! i = (if d \<le> i \<and> i < d + Suc n then src ! (first + (i - d)) else dst ! i)"
    if "i < length dst" for i
  proof -
    from IH that have step: "dst' ! i = (if Suc d \<le> i \<and> i < Suc d + n then src ! (Suc first + (i - Suc d)) else dst[d := Some x] ! i)"
      by simp
    consider "i < d" | "i = d" | "Suc d \<le> i" by linarith
    then show ?thesis
    proof cases
      case 1
      with step that show ?thesis by simp
    next
      case 2
      with step that fx show ?thesis by simp
    next
      case 3
      then have "Suc first + (i - Suc d) = first + (i - d)" by arith
      with 3 step that show ?thesis by auto
    qed
  qed
  have src_ok: "first + k < length src \<and> src ! (first + k) \<noteq> None \<and>
      \<not> copy_assign_throws T (the (src ! (first + k)))"
    if "k < Suc n" for k
  proof (cases k)
    case 0
    with fx x show ?thesis by simp
  next
    case (Suc k')
    with that IH show ?thesis by auto
  qed
  from len nth src_ok show ?case by blast
qed


lemma copy_n_total:
  "(\<forall>k<n. first + k < length src \<and> src ! (first + k) \<noteq> None \<and>
      \<not> copy_assign_throws T (the (src ! (first + k)))) \<Longrightarrow>
   fst (copy_n T src first n dst d) = None"
proof (induction n arbitrary: first dst d)
  case 0
  then show ?case by simp
next
  case (Suc n)
  from Suc.prems[rule_format, of 0] obtain x where
    x: "src ! first = Some x" "first < length src" "\<not> copy_assign_throws T x"
    by auto
  have "\<forall>k<n. Suc first + k < length src \<and> src ! (Suc first + k) \<noteq> None \<and>
          \<not> copy_assign_throws T (the (src ! (Suc first + k)))"
    using Suc.prems[rule_format, of "Suc k" for k] by simp
  from Suc.IH[OF this] x show ?case by (simp add: slot_at_def)
qed


subsection \<open>Moving elements one slot to the left\<close>


lemma std_move_loop_shift:
  assumes "\<forall>k<n. Suc d + k < length buf \<and>
             (\<exists>x. buf ! (Suc d + k) = Some x \<and> \<not> move_assign_throws T x)"
  shows "\<exists>buf'. std_move_loop T buf (Suc d) d n = (None, buf') \<and>
           length buf' = length buf \<and>
           (\<forall>i<length buf. buf' ! i =
              (if d \<le> i \<and> i < d + n then buf ! Suc i
               else if 0 < n \<and> i = d + n then map_option (moved_from T) (buf ! i)
               else buf ! i))"
  using assms
proof (induction n arbitrary: buf d)
  case 0
  then show ?case by auto
next
  case (Suc n)
  from Suc.prems[rule_format, of 0] obtain x where
    x: "Suc d < length buf" "buf ! Suc d = Some x" "\<not> move_assign_throws T x"
    by auto
  define buf1 where "buf1 = buf[d := Some x, Suc d := Some (moved_from T x)]"
  have step: "move_assign_at T buf (Suc d) d = (None, buf1)"
    using x by (simp add: move_assign_at_def slot_at_def buf1_def)
  have len1: "length buf1 = length buf" by (simp add: buf1_def)
  have far: "buf1 ! i = buf ! i" if "Suc (Suc d) \<le> i" for i
    using that by (simp add: buf1_def)
  have "\<forall>k<n. Suc (Suc d) + k < length buf1 \<and>
          (\<exists>x. buf1 ! (Suc (Suc d) + k) = Some x \<and> \<not> move_assign_throws T x)"
    using Suc.prems[rule_format, of "Suc k" for k] far len1 by simp
  from Suc.IH[OF this] obtain buf' where
    run: "std_move_loop T buf1 (Suc (Suc d)) (Suc d) n = (None, buf')"
    and len: "length buf' = length buf1"
    and nth: "\<forall>i<length buf1. buf' ! i =
              (if Suc d \<le> i \<and> i < Suc d + n then buf1 ! Suc i
               else if 0 < n \<and> i = Suc d + n then map_option (moved_from T) (buf1 ! i)
               else buf1 ! i)"
    by blast
  have "buf' ! i =
          (if d \<le> i \<and> i < d + Suc n then buf ! Suc i
           else if 0 < Suc n \<and> i = d + Suc n then map_option (moved_from T) (buf ! i)
           else buf ! i)" if i: "i < length buf" for i
  proof -
    consider "i < d" | "i = d" | "Suc d \<le> i" "i < Suc d + n" | "i = Suc d + n" | "Suc d + n < i"
      by linarith
    then show ?thesis
    proof cases
      case 1
      with nth i len1 show ?thesis by (simp add: buf1_def)
    next
      case 2
      with nth i len1 x show ?thesis by (simp add: buf1_def)
    next
      case 3
      with nth i len1 far[of "Suc i"] show ?thesis by simp
    next
      case 4
      show ?thesis
      proof (cases n)
        case 0
        with 4 nth i len1 x show ?thesis by (simp add: buf1_def)
      next
        case (Suc m)
        with 4 nth i len1 far[of i] show ?thesis by simp
      qed
    next
      case 5
      with nth i len1 far[of i] show ?thesis by simp
    qed
  qed
  with step run len len1 show ?case by simp
qed


section \<open>Well-formed vectors\<close>


text \<open>
  A well-formed vector is determined by its capacity and its elements: it is
  \<open>mk_vector\<close> of them. Equivalently its block has \<open>capacity_\<close> slots of which exactly the
  first \<open>size_\<close> hold a live object.
\<close>


lemma size_t_mult_small: "a * b < 2 ^ 64 \<Longrightarrow> size_t_mult a b = a * b"
  by (simp add: size_t_mult_def nat_mod_distrib flip: of_nat_mult)

lemma size_t_mult_fits: "fits T n \<Longrightarrow> size_t_mult n (sizeof_T T) = n * sizeof_T T"
  by (simp add: fits_def size_t_mult_small)

lemma fits_mono: "fits T m \<Longrightarrow> n \<le> m \<Longrightarrow> fits T n"
proof -
  assume m: "fits T m" and le: "n \<le> m"
  from le have "n * sizeof_T T \<le> m * sizeof_T T" by simp
  moreover from m have "m * sizeof_T T < 2 ^ 64" unfolding fits_def by blast
  ultimately have "n * sizeof_T T < 2 ^ 64" by (rule le_less_trans)
  moreover from m have "0 < sizeof_T T" unfolding fits_def by blast
  ultimately show ?thesis unfolding fits_def by blast
qed

lemma RawMemory_ctor_Inr:
  "RawMemory_ctor T n = Inr d \<Longrightarrow> m_capacity d = n \<and> (\<exists>k. m_buffer d = replicate k None)"
  by (auto simp: RawMemory_ctor_def Allocate_def split: if_splits)

lemma RawMemory_ctor_fits:
  assumes "fits T n"
  shows "RawMemory_ctor T n =
           (if n \<noteq> 0 \<and> alloc_fails T (n * sizeof_T T) then Inl bad_alloc
            else Inr \<lparr>m_buffer = replicate n None, m_capacity = n\<rparr>)"
  using assms by (simp add: RawMemory_ctor_def Allocate_def size_t_mult_fits fits_def)

lemma RawMemory_ctor_fits_Inr:
  "fits T n \<Longrightarrow> RawMemory_ctor T n = Inr d \<Longrightarrow>
   m_buffer d = replicate n None \<and> m_capacity d = n"
  by (auto simp: RawMemory_ctor_fits split: if_splits)

lemma RawMemory_ctor_length:
  "RawMemory_ctor T n = Inr d \<Longrightarrow> n \<noteq> 0 \<Longrightarrow>
   m_buffer d = replicate (size_t_mult n (sizeof_T T) div sizeof_T T) None"
  by (auto simp: RawMemory_ctor_def Allocate_def split: if_splits)

text \<open>
  A block requested for twice \<open>n\<close> objects (for one object when \<open>n\<close> is 0) that has room for
  \<open>n + 1\<close> objects was requested without a wrap of the byte count, and has all its slots.
\<close>

lemma size_t_mult_mod: "size_t_mult a b = (a * b) mod 2 ^ 64"
  by (simp add: size_t_mult_def nat_mod_distrib flip: of_nat_mult)

lemma doubled_block_no_wrap:
  assumes k: "n + 1 \<le> size_t_mult N sz div sz" and N: "N = (if n = 0 then 1 else n * 2)"
  shows "size_t_mult N sz div sz = N"
proof -
  define W where "W = (N * sz) mod 2 ^ 64"
  have W: "size_t_mult N sz = W" by (simp add: W_def size_t_mult_mod)
  from k have sz: "0 < sz" by (cases "sz = 0") simp_all
  from k W have "n + 1 \<le> W div sz" by simp
  then have "(n + 1) * sz \<le> W div sz * sz" by (rule mult_le_mono1)
  also have "\<dots> \<le> W" by simp
  finally have low: "n * sz + sz \<le> W" by (simp add: algebra_simps)
  have up: "W < 2 ^ 64" by (simp add: W_def)
  have small: "N * sz < 2 ^ 64"
  proof (rule ccontr)
    assume "\<not> N * sz < 2 ^ 64"
    then have big: "(2::nat) ^ 64 \<le> N * sz" by simp
    then have "W = (N * sz - 2 ^ 64) mod 2 ^ 64" unfolding W_def by (rule le_mod_geq)
    also have "\<dots> \<le> N * sz - 2 ^ 64" by (rule mod_less_eq_dividend)
    finally have W2: "W + 2 ^ 64 \<le> N * sz" using big by simp
    show False
    proof (cases "n = 0")
      case True
      with N W2 low up show False by simp
    next
      case False
      with N have "N * sz = 2 * (n * sz)" by simp
      with W2 low up show False by simp
    qed
  qed
  then have "W = N * sz" by (simp add: W_def)
  with W sz show ?thesis by simp
qed


lemma length_elements [simp]: "Vector_inv v \<Longrightarrow> length (elements v) = m_size v"
  by (simp add: Vector_inv_def elements_def)


lemma Vector_inv_mk_vector: "length xs \<le> cap \<Longrightarrow> Vector_inv (mk_vector cap xs)"
  by (simp add: Vector_inv_def mk_vector_def list_all_iff)


lemma elements_mk_vector [simp]: "elements (mk_vector cap xs) = xs"
  by (simp add: elements_def mk_vector_def comp_def)


lemma Vector_inv_imp_mk_vector:
  assumes "Vector_inv v"
  shows "v = mk_vector (m_capacity (m_data v)) (elements v)"
proof -
  let ?buf = "m_buffer (m_data v)"
  from assms have live: "list_all (\<lambda>s. s \<noteq> None) (take (m_size v) ?buf)"
    and dead: "list_all (\<lambda>s. s = None) (drop (m_size v) ?buf)"
    and len: "length ?buf = m_capacity (m_data v)" and le: "m_size v \<le> m_capacity (m_data v)"
    by (simp_all add: Vector_inv_def)
  from live have "map Some (map the (take (m_size v) ?buf)) = take (m_size v) ?buf"
    by (simp add: list_all_iff map_idI)
  moreover have "drop (m_size v) ?buf = replicate (m_capacity (m_data v) - m_size v) None"
  proof -
    from dead have "replicate (length (drop (m_size v) ?buf)) None = drop (m_size v) ?buf"
      by (intro replicate_length_same) (simp add: list_all_iff)
    with len show ?thesis by simp
  qed
  ultimately have "?buf = map Some (elements v) @ replicate (m_capacity (m_data v) - m_size v) None"
    by (metis append_take_drop_id elements_def)
  with assms show ?thesis
    by (simp add: mk_vector_def)
qed


lemma mk_vector_fields [simp]:
  "m_size (mk_vector cap xs) = length xs"
  "m_capacity (m_data (mk_vector cap xs)) = cap"
  "m_buffer (m_data (mk_vector cap xs)) = map Some xs @ replicate (cap - length xs) None"
  by (simp_all add: mk_vector_def)

lemma Vector_inv_buffer:
  assumes "Vector_inv v"
  shows "m_buffer (m_data v) =
           map Some (elements v) @ replicate (m_capacity (m_data v) - m_size v) None"
proof -
  from assms have eq: "v = mk_vector (m_capacity (m_data v)) (elements v)"
    by (rule Vector_inv_imp_mk_vector)
  have "m_buffer (m_data v) = m_buffer (m_data (mk_vector (m_capacity (m_data v)) (elements v)))"
    using arg_cong[OF eq, of "\<lambda>w. m_buffer (m_data w)"] .
  also have "\<dots> = map Some (elements v) @ replicate (m_capacity (m_data v) - m_size v) None"
    using assms by simp
  finally show ?thesis .
qed


lemma nth_slots:
  "i < cap \<Longrightarrow> length xs \<le> cap \<Longrightarrow>
   (map Some xs @ replicate (cap - length xs) None) ! i = (if i < length xs then Some (xs ! i) else None)"
  by (simp add: nth_append)


lemma nth_without:
  "p < length xs \<Longrightarrow> i < length xs - 1 \<Longrightarrow>
   (take p xs @ drop (Suc p) xs) ! i = (if i < p then xs ! i else xs ! Suc i)"
  by (auto simp: nth_append min_def)


lemma slot_at_mk_vector:
  "length xs \<le> cap \<Longrightarrow>
   slot_at (m_buffer (m_data (mk_vector cap xs))) i = (if i < length xs then Some (xs ! i) else None)"
  using nth_slots[of i cap xs] by (simp add: slot_at_def)


lemma live_objects_slots [simp]:
  "live_objects (map Some ys @ replicate k None) = ys"
  by (simp add: live_objects_def filter_map comp_def)


lemma destroy_n_all:
  "destroy_n (map Some xs @ replicate k None) 0 (length xs) = replicate (length xs + k) None"
  by (rule nth_equalityI) (auto simp: nth_destroy_n nth_append)


lemma Vector_inv_iff:
  "Vector_inv v \<longleftrightarrow>
     length (m_buffer (m_data v)) = m_capacity (m_data v) \<and>
     m_size v \<le> m_capacity (m_data v) \<and>
     live_prefix (m_buffer (m_data v)) (m_size v)"
proof -
  let ?buf = "m_buffer (m_data v)" and ?n = "m_size v"
  have "list_all (\<lambda>s. s \<noteq> None) (take ?n ?buf) \<and> list_all (\<lambda>s. s = None) (drop ?n ?buf)
        \<longleftrightarrow> live_prefix ?buf ?n" if n_le: "?n \<le> length ?buf"
  proof
    assume a: "list_all (\<lambda>s. s \<noteq> None) (take ?n ?buf) \<and> list_all (\<lambda>s. s = None) (drop ?n ?buf)"
    show "live_prefix ?buf ?n"
      unfolding live_prefix_def
    proof (intro allI impI)
      fix i assume i: "i < length ?buf"
      show "?buf ! i \<noteq> None \<longleftrightarrow> i < ?n"
      proof (cases "i < ?n")
        case True
        with a i show ?thesis by (auto simp: list_all_length)
      next
        case False
        with i have "i - ?n < length (drop ?n ?buf)" by simp
        with a have "drop ?n ?buf ! (i - ?n) = None"
          by (simp only: list_all_length)
        moreover from False n_le have "drop ?n ?buf ! (i - ?n) = ?buf ! i" by simp
        ultimately show ?thesis using False by simp
      qed
    qed
  next
    assume l: "live_prefix ?buf ?n"
    have "take ?n ?buf ! i \<noteq> None" if "i < length (take ?n ?buf)" for i
      using l that by (simp add: live_prefix_def)
    moreover have "drop ?n ?buf ! i = None" if "i < length (drop ?n ?buf)" for i
    proof -
      from that have "?n + i < length ?buf" by simp
      with l have "?buf ! (?n + i) = None" unfolding live_prefix_def by auto
      with that n_le show ?thesis by simp
    qed
    ultimately show "list_all (\<lambda>s. s \<noteq> None) (take ?n ?buf) \<and> list_all (\<lambda>s. s = None) (drop ?n ?buf)"
      by (simp add: list_all_length)
  qed
  then show ?thesis by (auto simp: Vector_inv_def)
qed


subsection \<open>Moves inside a block keep the live slots\<close>


lemma live_prefix_update_live:
  assumes "live_prefix buf n" and "i < n"
  shows "live_prefix (buf[i := Some x]) n"
  unfolding live_prefix_def
proof (intro allI impI)
  fix j assume "j < length (buf[i := Some x])"
  then have j: "j < length buf" by simp
  show "buf[i := Some x] ! j \<noteq> None \<longleftrightarrow> j < n"
  proof (cases "j = i")
    case True
    with j assms(2) show ?thesis by simp
  next
    case False
    with j assms(1) show ?thesis by (simp add: live_prefix_def)
  qed
qed


lemma live_prefix_extend:
  "live_prefix buf n \<Longrightarrow> live_prefix (buf[n := Some x]) (Suc n)"
  by (auto simp: live_prefix_def nth_list_update less_Suc_eq)


lemma live_prefix_shrink:
  "live_prefix buf (Suc n) \<Longrightarrow> live_prefix (buf[n := None]) n"
  by (auto simp: live_prefix_def nth_list_update less_Suc_eq)


lemma live_prefix_slot:
  "live_prefix buf n \<Longrightarrow> slot_at buf s = Some x \<Longrightarrow> s < n"
  by (auto simp: live_prefix_def slot_at_def split: if_splits)


lemma live_prefix_same_liveness:
  assumes "live_prefix b n" and "length b' = length b"
    and "\<forall>i<length b. b' ! i \<noteq> None \<longleftrightarrow> b ! i \<noteq> None"
  shows "live_prefix b' n"
  using assms by (simp add: live_prefix_def)


lemma move_assign_at_live:
  assumes "live_prefix buf n" and "d < n" and "move_assign_at T buf s d = (r, buf')"
  shows "length buf' = length buf \<and> live_prefix buf' n"
proof (cases "slot_at buf s")
  case None
  with assms show ?thesis by (simp add: move_assign_at_def)
next
  case (Some x)
  with assms(1) have "s < n" by (rule live_prefix_slot)
  with assms Some show ?thesis
    by (auto simp: move_assign_at_def live_prefix_update_live split: if_splits)
qed


lemma move_backward_loop_live:
  "live_prefix buf n \<Longrightarrow> d_last \<le> n \<Longrightarrow> k \<le> d_last \<Longrightarrow>
   move_backward_loop T buf lst d_last k = (r, buf') \<Longrightarrow>
   length buf' = length buf \<and> live_prefix buf' n"
proof (induction k arbitrary: buf lst d_last)
  case 0
  then show ?case by simp
next
  case (Suc k)
  obtain r1 b1 where m: "move_assign_at T buf (lst - 1) (d_last - 1) = (r1, b1)"
    by (cases "move_assign_at T buf (lst - 1) (d_last - 1)")
  from Suc.prems have d: "d_last - 1 < n" by simp
  from move_assign_at_live[OF Suc.prems(1) d m] have b1: "length b1 = length buf" "live_prefix b1 n"
    by simp_all
  show ?case
  proof (cases r1)
    case (Some e)
    with m Suc.prems(4) b1 show ?thesis by simp
  next
    case None
    with m Suc.prems(4) have run: "move_backward_loop T b1 (lst - 1) (d_last - 1) k = (r, buf')"
      by simp
    from Suc.prems have "d_last - 1 \<le> n" "k \<le> d_last - 1" by simp_all
    from Suc.IH[OF b1(2) this run] b1(1) show ?thesis by simp
  qed
qed


lemma std_move_loop_live:
  "live_prefix buf n \<Longrightarrow> d_first + k \<le> n \<Longrightarrow>
   std_move_loop T buf first d_first k = (r, buf') \<Longrightarrow>
   length buf' = length buf \<and> live_prefix buf' n"
proof (induction k arbitrary: buf first d_first)
  case 0
  then show ?case by simp
next
  case (Suc k)
  obtain r1 b1 where m: "move_assign_at T buf first d_first = (r1, b1)"
    by (cases "move_assign_at T buf first d_first")
  from Suc.prems have d: "d_first < n" by simp
  from move_assign_at_live[OF Suc.prems(1) d m] have b1: "length b1 = length buf" "live_prefix b1 n"
    by simp_all
  show ?case
  proof (cases r1)
    case (Some e)
    with m Suc.prems(3) b1 show ?thesis by simp
  next
    case None
    with m Suc.prems(3) have run: "std_move_loop T b1 (Suc first) (Suc d_first) k = (r, buf')"
      by simp
    from Suc.prems have "Suc d_first + k \<le> n" by simp
    from Suc.IH[OF b1(2) this run] b1(1) show ?thesis by simp
  qed
qed


lemma two_phase_fill_live:
  assumes "length d0 = N" and "\<forall>i<N. d0 ! i \<noteq> None \<longleftrightarrow> i = p"
    and "length d1 = N" and "\<forall>i<N. d1 ! i \<noteq> None \<longleftrightarrow> (0 \<le> i \<and> i < 0 + p) \<or> d0 ! i \<noteq> None"
    and "length d2 = N"
    and "\<forall>i<N. d2 ! i \<noteq> None \<longleftrightarrow> (p + 1 \<le> i \<and> i < p + 1 + (n - p)) \<or> d1 ! i \<noteq> None"
    and "p \<le> n"
  shows "live_prefix d2 (Suc n)"
  unfolding live_prefix_def
proof (intro allI impI)
  fix i assume "i < length d2"
  with assms(5) have i: "i < N" by simp
  from assms(2,4,6) i have "d2 ! i \<noteq> None \<longleftrightarrow> (p + 1 \<le> i \<and> i < p + 1 + (n - p)) \<or> i < p \<or> i = p"
    by simp
  also from assms(7) have "\<dots> \<longleftrightarrow> i < Suc n" by arith
  finally show "d2 ! i \<noteq> None \<longleftrightarrow> i < Suc n" .
qed


section \<open>Reserve\<close>




text \<open>
  Under the same conditions the exception does propagate: when the allocation succeeds and
  the copy constructor throws on some element, the call ends with that exception.
\<close>

lemma Reserve_throwing_copy_propagates:
  assumes "\<not> nothrow_move_constructible T" and "copy_constructible T"
    and "Vector_inv v" and "fits T new_capacity"
    and "m_capacity (m_data v) < new_capacity"
    and "\<not> alloc_fails T (new_capacity * sizeof_T T)"
    and "\<not> list_all (\<lambda>x. \<not> copy_throws T x) (elements v)"
  shows "outcome (Reserve T new_capacity v) = Inl element_exception"
proof -
  let ?buf = "m_buffer (m_data v)"
  let ?pad = "replicate (m_capacity (m_data v) - m_size v) (None :: 'a option)"
  from assms(4,6) have ctor: "RawMemory_ctor T new_capacity =
      Inr \<lparr>m_buffer = replicate new_capacity None, m_capacity = new_capacity\<rparr>"
    by (simp add: RawMemory_ctor_fits)
  have buf: "?buf = map Some (elements v) @ ?pad"
    using assms(3) by (rule Vector_inv_buffer)
  have len: "length (elements v) = m_size v"
    using assms(3) by simp
  obtain r dst where copy:
    "uninitialized_copy_n T (map Some (elements v) @ ?pad) 0 (m_size v)
       (replicate new_capacity None) 0 = (r, dst)"
    by (cases "uninitialized_copy_n T (map Some (elements v) @ ?pad) 0 (m_size v)
       (replicate new_capacity None) 0")
  have "r \<noteq> None"
  proof
    assume "r = None"
    from uninitialized_copy_n_slots[OF copy[unfolded this]] len
    have "list_all (\<lambda>x. \<not> copy_throws T x) (elements v)" by simp
    with assms(7) show False ..
  qed
  then obtain e where r: "r = Some e" by auto
  with copy have out: "outcome (Reserve T new_capacity v) = Inl e"
    using assms(1,2,5) ctor buf by (simp add: Reserve_def)
  have "e = element_exception"
  proof -
    from assms(3) have "m_size v \<le> m_capacity (m_data v)" by (simp add: Vector_inv_def)
    with assms(5) have room: "0 + m_size v \<le> length (replicate new_capacity (None :: 'a option))"
      by simp
    from uninitialized_copy_n_error[OF copy[unfolded r] _ room] len show ?thesis by simp
  qed
  with out show ?thesis by simp
qed

section \<open>Emplace and Insert with reallocation\<close>


text \<open>
  When \<open>T\<close> is relocated by copying, a reallocating \<open>Emplace\<close> that ends with an exception
  leaves the vector as it was. \<open>Emplace_realloc_copy_mk_vector\<close> gives every outcome of the
  branch on a full vector when the byte size of the new block is a value of \<open>size_t\<close> and
  the allocation and the construction of the new element succeed: an exception in the prefix loses nothing, an exception in the suffix loses the
  copies of the prefix, and a call that returns yields the elements with the new one at
  \<open>position\<close>.
\<close>


lemma Emplace_realloc_shape:
  assumes "Emplace_realloc T p a v = Result (Inr u) v' l"
  shows "m_capacity (m_data v') = (if m_size v = 0 then 1 else m_size v * 2) \<and> m_size v' = m_size v"
  using assms
  by (auto simp: Emplace_realloc_def destroy_and_adopt_def RawMemory_Swap_def with_buffer_def
      dest!: RawMemory_ctor_Inr split: sum.splits prod.splits option.splits if_splits)


lemma Emplace_inplace_shape:
  "m_capacity (m_data (vec (Emplace_inplace T p a v))) = m_capacity (m_data v) \<and>
   m_size (vec (Emplace_inplace T p a v)) = m_size v"
  by (simp add: Emplace_inplace_def with_buffer_def split: sum.splits prod.splits option.splits)


lemma Emplace_inplace_shape_any:
  "m_size (vec (Emplace_inplace T p a v)) = m_size v \<and>
   m_capacity (m_data (vec (Emplace_inplace T p a v))) = m_capacity (m_data v)"
  by (simp add: Emplace_inplace_def with_buffer_def split: sum.splits prod.splits option.splits)


lemma Emplace_realloc_copy_preserves:
  assumes "\<not> nothrow_move_constructible T" and "copy_constructible T"
    and "outcome (Emplace_realloc T p a v) = Inl e"
  shows "vec (Emplace_realloc T p a v) = v"
proof -
  define N where "N = (if m_size v = 0 then 1 else m_size v * 2)"
  show ?thesis
  proof (cases "RawMemory_ctor T N")
    case (Inl e')
    then show ?thesis by (simp add: Emplace_realloc_def N_def)
  next
    case (Inr new_data)
    show ?thesis
    proof (cases "construct T a")
      case (Inl e')
      with Inr show ?thesis by (simp add: Emplace_realloc_def N_def)
    next
      case x: (Inr x)
      show ?thesis
      proof (cases "p < length (m_buffer new_data)")
        case False
        with Inr x show ?thesis by (simp add: Emplace_realloc_def N_def[symmetric])
      next
        case True
        obtain r1 d1 where c1: "uninitialized_copy_n T (m_buffer (m_data v)) 0 p
                           (construct_at (m_buffer new_data) p x) 0 = (r1, d1)"
          by (cases "uninitialized_copy_n T (m_buffer (m_data v)) 0 p
                           (construct_at (m_buffer new_data) p x) 0")
        obtain r2 d2 where c2: "uninitialized_copy_n T (m_buffer (m_data v)) p
                                (m_size v - p) d1 (p + 1) = (r2, d2)"
          by (cases "uninitialized_copy_n T (m_buffer (m_data v)) p
                                (m_size v - p) d1 (p + 1)")
        from assms Inr x True c1 c2 show ?thesis
          by (cases r1; cases r2)
            (simp_all add: Emplace_realloc_def N_def[symmetric] destroy_and_adopt_def
              split: prod.splits)
      qed
    qed
  qed
qed


lemma Emplace_full_copy_preserves:
  assumes "\<not> nothrow_move_constructible T" and "copy_constructible T"
    and "m_size v = Capacity v"
    and "outcome (Emplace T p a v) = Inl e"
  shows "vec (Emplace T p a v) = v"
proof (cases "p \<le> m_size v")
  case False
  then show ?thesis by (simp add: Emplace_def)
next
  case True
  obtain r v' l where r: "Emplace_realloc T p a v = Result r v' l"
    by (cases "Emplace_realloc T p a v")
  with assms(3,4) True obtain e' where "r = Inl e'"
    by (cases r) (simp_all add: Emplace_def)
  with r Emplace_realloc_copy_preserves[OF assms(1,2), of p a v e'] assms(3) True show ?thesis
    by (simp add: Emplace_def)
qed


lemma Emplace_realloc_copy_mk_vector:
  fixes xs :: "'a list"
  assumes mode: "\<not> nothrow_move_constructible T" "copy_constructible T"
    and len: "length xs = cap" and p: "p \<le> length xs"
    and N: "N = (if cap = 0 then 1 else cap * 2)"
    and fits: "fits T N"
    and alloc: "\<not> alloc_fails T (N * sizeof_T T)"
    and x: "construct T a = Inr x"
  shows "Emplace_realloc T p a (mk_vector cap xs) =
     (if list_all (\<lambda>y. \<not> copy_throws T y) (take p xs) then
        (if list_all (\<lambda>y. \<not> copy_throws T y) (drop p xs)
         then Result (Inr ())
                \<lparr>m_data = \<lparr>m_buffer = map Some (take p xs @ x # drop p xs) @
                                         replicate (N - Suc cap) None,
                            m_capacity = N\<rparr>,
                 m_size = cap\<rparr> []
         else Result (Inl element_exception) (mk_vector cap xs) (take p xs))
      else Result (Inl element_exception) (mk_vector cap xs) [])"
proof -
  let ?B = "map Some xs @ replicate (cap - length xs) None"
  let ?ok = "\<lambda>y. \<not> copy_throws T y"
  define dst0 :: "'a block" where "dst0 = construct_at (replicate N None) p x"
  have Npos: "N \<noteq> 0" and capN: "cap < N" using N by (auto split: if_splits)
  have pN: "p < N" using p len capN by simp
  have ctor: "RawMemory_ctor T N = Inr \<lparr>m_buffer = replicate N None, m_capacity = N\<rparr>"
    using alloc fits by (simp add: RawMemory_ctor_fits)
  have len0: "length dst0 = N" by (simp add: dst0_def construct_at_def)
  have nth0: "dst0 ! i = (if i = p then Some x else None)" if "i < N" for i
    using that by (simp add: dst0_def construct_at_def nth_list_update)
  obtain r1 d1 where c1: "uninitialized_copy_n T ?B 0 p dst0 0 = (r1, d1)"
    by (cases "uninitialized_copy_n T ?B 0 p dst0 0")
  have unfold: "Emplace_realloc T p a (mk_vector cap xs) =
      (case r1 of
         Some e \<Rightarrow> Result (Inl e) (mk_vector cap xs)
                    (RawMemory_dtor \<lparr>m_buffer = destroy_n d1 p 1, m_capacity = N\<rparr>)
       | None \<Rightarrow>
          (case uninitialized_copy_n T ?B p (cap - p) d1 (p + 1) of
             (Some e, d2) \<Rightarrow> Result (Inl e) (mk_vector cap xs)
                               (RawMemory_dtor \<lparr>m_buffer = destroy_n d2 p 1, m_capacity = N\<rparr>)
           | (None, d2) \<Rightarrow>
               (case destroy_and_adopt (mk_vector cap xs) \<lparr>m_buffer = d2, m_capacity = N\<rparr> of
                  (v', l) \<Rightarrow> Result (Inr ()) v' l)))"
  proof -
    have Nv: "(if m_size (mk_vector cap xs) = 0 then 1 else m_size (mk_vector cap xs) * 2) = N"
      using len N by simp
    show ?thesis
      unfolding Emplace_realloc_def Nv
      using mode x ctor c1 len pN
      by (simp add: dst0_def split: option.splits prod.splits)
  qed
  show ?thesis
  proof (cases "list_all ?ok (take p xs)")
    case False
    have "r1 \<noteq> None"
    proof
      assume "r1 = None"
      from uninitialized_copy_n_slots[OF c1[unfolded this]] p
      have "list_all ?ok (take p (drop 0 xs))" by simp
      with False show False by simp
    qed
    then obtain e where r1: "r1 = Some e" by auto
    from uninitialized_copy_n_error[OF c1[unfolded r1]] p pN len0
    have e: "e = element_exception" by simp
    have "d1 = dst0"
      using c1[unfolded r1]
    proof (rule uninitialized_copy_n_rollback)
      show "\<forall>i<length dst0. 0 \<le> i \<longrightarrow> i < 0 + p \<longrightarrow> dst0 ! i = None"
        using nth0 len0 by auto
    qed
    moreover have "(replicate N (None :: 'a option))[p := None] = replicate N None"
      using pN by (simp add: list_update_same_conv)
    ultimately have "destroy_n d1 p 1 = replicate N None"
      by (simp add: dst0_def construct_at_def destroy_at_def)
    then have "RawMemory_dtor \<lparr>m_buffer = destroy_n d1 p 1, m_capacity = N\<rparr> = []"
      by (simp add: RawMemory_dtor_def live_objects_def)
    with unfold r1 e False show ?thesis by simp
  next
    case True
    then have "fst (uninitialized_copy_n T ?B 0 p dst0 0) = None"
      using p pN len0 by (intro uninitialized_copy_n_succeeds) simp_all
    with c1 have r1: "r1 = None" by simp
    from uninitialized_copy_n_slots[OF c1[unfolded r1]] p len0
    have len1: "length d1 = N"
      and nth1: "\<And>i. i < N \<Longrightarrow> d1 ! i = (if i < p then Some (xs ! i) else dst0 ! i)"
      by simp_all
    obtain r2 d2 where c2: "uninitialized_copy_n T ?B p (cap - p) d1 (p + 1) = (r2, d2)"
      by (cases "uninitialized_copy_n T ?B p (cap - p) d1 (p + 1)")
    have range: "p + (cap - p) \<le> length xs" using p len by simp
    have room: "p + 1 + (cap - p) \<le> length d1" using p len len1 capN by simp
    show ?thesis
    proof (cases "list_all ?ok (drop p xs)")
      case False
      have "r2 \<noteq> None"
      proof
        assume "r2 = None"
        from uninitialized_copy_n_slots[OF c2[unfolded this] range]
        have "list_all ?ok (take (cap - p) (drop p xs))" by blast
        with False len show False by simp
      qed
      then obtain e where r2: "r2 = Some e" by auto
      from uninitialized_copy_n_error[OF c2[unfolded r2] range] room
      have e: "e = element_exception" by simp
      have "d2 = d1"
        using c2[unfolded r2]
      proof (rule uninitialized_copy_n_rollback)
        show "\<forall>i<length d1. p + 1 \<le> i \<longrightarrow> i < p + 1 + (cap - p) \<longrightarrow> d1 ! i = None"
          using nth1 nth0 len1 by auto
      qed
      moreover have "destroy_n d1 p 1 = map Some (take p xs) @ replicate (N - p) None"
      proof (rule nth_equalityI)
        show "length (destroy_n d1 p 1) = length (map Some (take p xs) @ replicate (N - p) None)"
          using len1 p pN by simp
      next
        fix i assume "i < length (destroy_n d1 p 1)"
        then have i: "i < N" using len1 by simp
        with len1 have "destroy_n d1 p 1 ! i = (if i = p then None else d1 ! i)"
          by (auto simp: destroy_at_def)
        with nth1[OF i] nth0[OF i] p i
        show "destroy_n d1 p 1 ! i = (map Some (take p xs) @ replicate (N - p) None) ! i"
          by (auto simp: nth_append)
      qed
      ultimately have "RawMemory_dtor \<lparr>m_buffer = destroy_n d2 p 1, m_capacity = N\<rparr> = take p xs"
        by (simp add: RawMemory_dtor_def)
      with unfold r1 c2 r2 e True False show ?thesis by simp
    next
      case ok2: True
      then have "fst (uninitialized_copy_n T ?B p (cap - p) d1 (p + 1)) = None"
        using range len room by (intro uninitialized_copy_n_succeeds) simp_all
      with c2 have r2: "r2 = None" by simp
      from uninitialized_copy_n_slots[OF c2[unfolded r2] range] len1
      have len2: "length d2 = N"
        and nth2: "\<And>i. i < N \<Longrightarrow> d2 ! i =
            (if p + 1 \<le> i \<and> i < p + 1 + (cap - p) then Some (xs ! (p + (i - (p + 1)))) else d1 ! i)"
        by simp_all
      let ?ys = "take p xs @ x # drop p xs"
      have lys: "length ?ys = Suc cap" using p len by simp
      have "d2 = map Some ?ys @ replicate (N - Suc cap) None"
      proof (rule nth_equalityI)
        show "length d2 = length (map Some ?ys @ replicate (N - Suc cap) None)"
          using len2 lys capN by simp
      next
        fix i assume "i < length d2"
        then have i: "i < N" using len2 by simp
        have rhs: "(map Some ?ys @ replicate (N - length ?ys) None) ! i =
                     (if i < length ?ys then Some (?ys ! i) else None)"
          using nth_slots[of i N ?ys] i lys capN by simp
        consider "i < p" | "i = p" | "p < i" "i \<le> cap" | "cap < i" by linarith
        then show "d2 ! i = (map Some ?ys @ replicate (N - Suc cap) None) ! i"
        proof cases
          case 1
          with nth2[OF i] nth1[OF i] rhs lys p len show ?thesis
            by (simp add: nth_append)
        next
          case 2
          with nth2[OF i] nth1[OF i] nth0[OF i] rhs lys p len show ?thesis
            by (simp add: nth_append)
        next
          case 3
          then have "p + (i - (p + 1)) = i - 1" "i - p = Suc (i - Suc p)" "p + (i - Suc p) = i - 1"
            by simp_all
          with 3 nth2[OF i] rhs lys p len show ?thesis
            by (simp add: nth_append)
        next
          case 4
          with nth2[OF i] nth1[OF i] nth0[OF i] rhs lys p len show ?thesis
            by simp
        qed
      qed
      moreover have "live_objects (destroy_n ?B 0 cap) = []"
        using destroy_n_all[of xs "cap - length xs"] len by (simp add: live_objects_def)
      ultimately show ?thesis
        using unfold r1 c2 r2 True ok2 len
        by (simp add: destroy_and_adopt_def RawMemory_Swap_def with_buffer_def RawMemory_dtor_def)
    qed
  qed
qed


text \<open>
  Claim C2. The claim says that when a copy throws in the reallocating branch, the new element
  and every prefix element already copied into the new block are destroyed. The handler of
  line 254 destroys one object only, the new element. Take a vector \<open>[1, 2]\<close> with size and
  capacity 2, of a type whose copy constructor throws on the value 2, and insert 9 at
  position 1: the prefix \<open>[1]\<close> is copied into the new block, the copy of the suffix throws on
  2, the handler destroys 9, and the new block is released while the copy of 1 is alive in it.
  The vector itself is unchanged.
\<close>


theorem Emplace_realloc_leaks_prefix:
  "Insert (throwing_copy [2::int]) 1 9 (mk_vector 2 [1, 2]) =
     Result (Inl element_exception) (mk_vector 2 [1, 2]) [1]"
  by code_simp


section \<open>Insert at the end and PushBack\<close>


text \<open>
  The first example of claim C3, with \<open>int\<close> elements: inserting 0 at position 0 of
  \<open>[1, 2, 3]\<close> gives \<open>[0, 1, 2, 3]\<close> with size 4, in place (capacity 4) and with
  reallocation (capacity 3).
\<close>


lemma Insert_front_example:
  "Insert trivial_type 0 (0::int) (mk_vector 4 [1, 2, 3]) = Result (Inr 0) (mk_vector 4 [0, 1, 2, 3]) [] \<and>
   Insert trivial_type 0 (0::int) (mk_vector 3 [1, 2, 3]) = Result (Inr 0) (mk_vector 6 [0, 1, 2, 3]) [] \<and>
   Size (mk_vector 4 [0, 1, 2, 3::int]) = 4"
  by code_simp


text \<open>
  \<open>Insert\<close> at the end agrees with \<open>PushBack\<close> on a full vector, on an empty one, and when
  moving the last element neither throws nor changes it.
\<close>


lemma Insert_at_end_eq_PushBack:
  assumes inv: "Vector_inv v"
    and ok: "Size v = Capacity v \<or> Size v = 0 \<or>
         (\<not> move_throws T (last (elements v)) \<and>
          moved_from T (last (elements v)) = last (elements v))"
  shows "vec (Emplace T (Size v) a v) = vec (PushBack T a v) \<and>
         leaked (Emplace T (Size v) a v) = leaked (PushBack T a v) \<and>
         map_sum id (\<lambda>p. ()) (outcome (Emplace T (Size v) a v)) = outcome (PushBack T a v)"
proof (cases "m_size v = Capacity v")
  case True
  then show ?thesis
    by (cases "Emplace T (m_size v) a v"; cases "outcome (Emplace T (m_size v) a v)")
      (simp_all add: PushBack_def EmplaceBack_def Size_def)
next
  case False
  let ?n = "m_size v" and ?buf = "m_buffer (m_data v)"
  show ?thesis
  proof (cases "?n = 0")
    case True
    with False show ?thesis
      by (simp add: PushBack_def EmplaceBack_def Emplace_def Emplace_inplace_def Size_def
          with_buffer_def split: sum.splits)
  next
    case nz: False
    let ?xs = "elements v"
    from inv have v: "v = mk_vector (Capacity v) ?xs" and len: "length ?xs = ?n"
      and le: "?n \<le> Capacity v"
      using Vector_inv_imp_mk_vector[of v] by (simp_all add: Capacity_def Vector_inv_def)
    from le False have lt: "?n < Capacity v" by simp
    from nz len have ne: "?xs \<noteq> []" by auto
    have buf: "?buf = map Some ?xs @ replicate (Capacity v - ?n) None"
      using v len by (metis mk_vector_fields(3))
    have blen: "length ?buf = Capacity v" using inv by (simp add: Vector_inv_def Capacity_def)
    have lastslot: "?buf ! (?n - 1) = Some (last ?xs)"
      using buf ne len nz by (simp add: nth_append last_conv_nth)
    have endslot: "?buf ! ?n = None"
      using buf len lt by (simp add: nth_append)
    from ok False nz have mv: "\<not> move_throws T (last ?xs)" "moved_from T (last ?xs) = last ?xs"
      by (simp_all add: Size_def)
    have same: "?buf[?n - 1 := Some (last ?xs)] = ?buf"
      using lastslot by (metis list_update_id)
    have mc: "move_construct_at T ?buf (?n - 1) ?n = (None, ?buf[?n := Some (last ?xs)])"
      using lastslot mv nz lt blen same
      by (simp add: move_construct_at_def slot_at_def construct_at_def)
    have mb: "move_backward T (?buf[?n := Some (last ?xs)]) ?n ?n (?n + 1) =
                (None, ?buf[?n := Some (last ?xs)])"
      by (simp add: move_backward_def)
    have undo: "destroy_at (?buf[?n := Some (last ?xs)]) ?n = ?buf"
      using endslot by (simp add: destroy_at_def) (metis list_update_id)
    have wb: "with_buffer v ?buf = v" by (simp add: with_buffer_def)
    from False nz mc mb undo wb show ?thesis
      by (simp add: PushBack_def EmplaceBack_def Emplace_def Emplace_inplace_def Size_def
          with_buffer_def construct_at_def split: sum.splits)
  qed
qed


text \<open>
  Claim C3. The claim says that \<open>Insert\<close> at \<open>end()\<close> gives the same vector as \<open>PushBack\<close>, for
  every vector and value. In the branch with spare capacity, \<open>Emplace\<close> first move constructs
  the last element into the slot behind it (line 264), which leaves the last element with its
  moved-from value, and then, when \<open>position\<close> is \<open>size_\<close>, destroys that very copy (line 272)
  before it builds the new element there. For \<open>std::string\<close> elements, on the vector holding
  \<open>a\<close> with capacity 2, inserting \<open>b\<close> at \<open>end()\<close> gives the empty string followed by \<open>b\<close>,
  where \<open>PushBack\<close> gives \<open>a\<close> followed by \<open>b\<close>.
\<close>


theorem Insert_at_end_differs_from_PushBack:
  "Vector_inv (mk_vector 2 [''a'']) \<and>
   Insert string_type 1 ''b'' (mk_vector 2 [''a'']) = Result (Inr 1) (mk_vector 2 ['''', ''b'']) [] \<and>
   PushBack string_type (Copy_of ''b'') (mk_vector 2 [''a'']) =
     Result (Inr ()) (mk_vector 2 [''a'', ''b'']) [] \<and>
   vec (Insert string_type 1 ''b'' (mk_vector 2 [''a''])) \<noteq>
     vec (PushBack string_type (Copy_of ''b'') (mk_vector 2 [''a'']))"
  by code_simp


text \<open>
  The same with \<open>std::unique_ptr\<close> elements, whose moved-from value the language fixes: on a
  vector holding one pointer, with capacity 2, \<open>Insert(end(), std::move(p))\<close> leaves a null
  pointer in front of the new element, where \<open>PushBack(std::move(p))\<close> keeps the old one.
\<close>

lemma Insert_at_end_unique_ptr_example:
  "Insert_rvalue unique_ptr_type 1 (Some 2) (mk_vector 2 [Some (1::int)]) =
     Result (Inr 1) (mk_vector 2 [None, Some 2]) [] \<and>
   PushBack unique_ptr_type (Move_of (Some 2)) (mk_vector 2 [Some (1::int)]) =
     Result (Inr ()) (mk_vector 2 [Some 1, Some 2]) []"
  by code_simp

lemma PushBack_capacity:
  assumes "outcome (PushBack T a v) = Inr ()"
  shows "Capacity (vec (PushBack T a v)) =
           (if Size v = Capacity v then (if Size v = 0 then 1 else Size v * 2) else Capacity v)"
proof (cases "m_size v = Capacity v")
  case True
  obtain r v' l where e: "Emplace_realloc T (m_size v) a v = Result r v' l"
    by (cases "Emplace_realloc T (m_size v) a v")
  with assms True obtain u where "r = Inr u"
    by (cases r) (simp_all add: PushBack_def EmplaceBack_def Emplace_def)
  with e Emplace_realloc_shape[of T "m_size v" a v u v' l] True show ?thesis
    by (simp add: PushBack_def EmplaceBack_def Emplace_def Capacity_def Size_def)
next
  case False
  with assms show ?thesis
    by (simp add: PushBack_def EmplaceBack_def Capacity_def Size_def with_buffer_def split: sum.splits)
qed


lemma PushBack_no_growth:
  assumes "outcome (PushBack T a v) = Inr ()" and "Size v \<noteq> Capacity v"
  shows "\<exists>x. m_buffer (m_data (vec (PushBack T a v))) = construct_at (m_buffer (m_data v)) (Size v) x"
  using assms
  by (auto simp: PushBack_def EmplaceBack_def Capacity_def Size_def with_buffer_def split: sum.splits)


text \<open>
  With spare capacity \<open>PushBack\<close> never reaches \<open>Allocate\<close>: the allocator of the element type
  can be replaced by any other, also by one that refuses every request, and the result is
  the same; the call never ends in \<open>bad_alloc\<close>; and the capacity is the old one whether the
  call returns or the constructor of the new element throws.
\<close>

lemma construct_allocator [simp]: "construct (T\<lparr>alloc_fails := f\<rparr>) a = construct T a"
  by (cases a) simp_all

lemma PushBack_spare_allocator:
  assumes "Size v \<noteq> Capacity v"
  shows "PushBack (T\<lparr>alloc_fails := f\<rparr>) a v = PushBack T a v"
  using assms by (simp add: PushBack_def EmplaceBack_def Size_def)

lemma PushBack_spare_no_bad_alloc:
  assumes "Size v \<noteq> Capacity v"
  shows "outcome (PushBack T a v) \<noteq> Inl bad_alloc"
  using assms
  by (cases a) (simp_all add: PushBack_def EmplaceBack_def Size_def)

lemma PushBack_spare_capacity:
  assumes "Size v \<noteq> Capacity v"
  shows "Capacity (vec (PushBack T a v)) = Capacity v"
  using assms
  by (simp add: PushBack_def EmplaceBack_def Size_def Capacity_def with_buffer_def
      split: sum.splits)


text \<open>
  A \<open>PushBack\<close> that does not return leaves the size and the capacity as they were, also on
  a full vector.
\<close>

lemma Emplace_realloc_throw_capacity:
  assumes "Emplace_realloc T p a v = Result (Inl e) v' l"
  shows "m_capacity (m_data v') = m_capacity (m_data v) \<and> m_size v' = m_size v"
  using assms
  by (auto simp: Emplace_realloc_def with_buffer_def destroy_and_adopt_def
      split: sum.splits if_splits prod.splits option.splits)

lemma PushBack_throw_capacity:
  assumes "outcome (PushBack T a v) \<noteq> Inr ()"
  shows "Capacity (vec (PushBack T a v)) = Capacity v \<and> Size (vec (PushBack T a v)) = Size v"
proof (cases "m_size v = Capacity v")
  case True
  obtain r v' l where e: "Emplace_realloc T (m_size v) a v = Result r v' l"
    by (cases "Emplace_realloc T (m_size v) a v")
  with assms True obtain e' where "r = Inl e'"
    by (cases r) (simp_all add: PushBack_def EmplaceBack_def Emplace_def)
  with e Emplace_realloc_throw_capacity[of T "m_size v" a v e' v' l] True show ?thesis
    by (simp add: PushBack_def EmplaceBack_def Emplace_def Capacity_def Size_def)
next
  case False
  with assms show ?thesis
    by (simp add: PushBack_def EmplaceBack_def Capacity_def Size_def with_buffer_def split: sum.splits)
qed


text \<open>
  Claim C5, as stated. The claim says that \<open>PushBack\<close> on a full vector doubles the capacity.
  It does so only when it returns: the new block is requested and the new element is
  constructed before the old block is given up, and an exception of either leaves the
  vector as it was. On the full vector \<open>[1]\<close> of capacity 1, with an element type whose
  copy constructor throws on 9, \<open>PushBack(9)\<close> throws and the capacity stays 1, where the
  claim gives 2.
\<close>


theorem PushBack_full_throw_counterexample:
  "Vector_inv (mk_vector 1 [1::int]) \<and>
   Size (mk_vector 1 [1::int]) = Capacity (mk_vector 1 [1::int]) \<and>
   PushBack (throwing_copy [9]) (Copy_of 9) (mk_vector 1 [1::int]) =
     Result (Inl element_exception) (mk_vector 1 [1]) [] \<and>
   Capacity (vec (PushBack (throwing_copy [9]) (Copy_of 9) (mk_vector 1 [1::int]))) = 1 \<and>
   Capacity (vec (PushBack (throwing_copy [9]) (Copy_of 9) (mk_vector 1 [1::int]))) \<noteq>
     Size (mk_vector 1 [1::int]) * 2"
  by code_simp


text \<open>
  Claim C5, amended. Pushing 1, 2, 3, 4, 5 onto an empty vector of \<open>int\<close> gives the capacities
  1, 2, 4, 4, 8 and the sizes 1 to 5, and the elements are \<open>[1, 2, 3, 4, 5]\<close> at the end. In
  general, for every element type and every vector: a \<open>PushBack\<close> that returns adds one to
  the size, and on a full vector it makes the capacity twice the size, or 1 for an empty
  vector; a \<open>PushBack\<close> that does not return leaves the size and the capacity as they were.
  On a vector with spare capacity \<open>PushBack\<close> allocates nothing: it never ends in
  \<open>bad_alloc\<close>, its result is the same under every allocator \<open>f\<close>, the capacity is unchanged
  whether it returns or throws, and when it returns the block is the old one with one more
  object, at index \<open>Size v\<close>.
\<close>


theorem PushBack_doubling:
  "map Capacity (push_sequence trivial_type [1, 2, 3, 4, 5::int] Vector_default) = [1, 2, 4, 4, 8] \<and>
   map Size (push_sequence trivial_type [1, 2, 3, 4, 5::int] Vector_default) = [1, 2, 3, 4, 5] \<and>
   elements (last (push_sequence trivial_type [1, 2, 3, 4, 5::int] Vector_default)) = [1, 2, 3, 4, 5] \<and>
   (outcome (PushBack T a v) = Inr () \<longrightarrow>
      Size (vec (PushBack T a v)) = Size v + 1 \<and>
      Capacity (vec (PushBack T a v)) =
        (if Size v = Capacity v then (if Size v = 0 then 1 else Size v * 2) else Capacity v) \<and>
      (Size v \<noteq> Capacity v \<longrightarrow>
         (\<exists>x. m_buffer (m_data (vec (PushBack T a v))) =
                construct_at (m_buffer (m_data v)) (Size v) x))) \<and>
   (outcome (PushBack T a v) \<noteq> Inr () \<longrightarrow>
      Size (vec (PushBack T a v)) = Size v \<and>
      Capacity (vec (PushBack T a v)) = Capacity v) \<and>
   (Size v \<noteq> Capacity v \<longrightarrow>
      outcome (PushBack T a v) \<noteq> Inl bad_alloc \<and>
      PushBack (T\<lparr>alloc_fails := f\<rparr>) a v = PushBack T a v \<and>
      Capacity (vec (PushBack T a v)) = Capacity v)"
proof (intro conjI impI)
  show "map Capacity (push_sequence trivial_type [1, 2, 3, 4, 5::int] Vector_default) = [1, 2, 4, 4, 8]"
    by code_simp
  show "map Size (push_sequence trivial_type [1, 2, 3, 4, 5::int] Vector_default) = [1, 2, 3, 4, 5]"
    by code_simp
  show "elements (last (push_sequence trivial_type [1, 2, 3, 4, 5::int] Vector_default)) = [1, 2, 3, 4, 5]"
    by code_simp
next
  assume ok: "outcome (PushBack T a v) = Inr ()"
  then show "Capacity (vec (PushBack T a v)) =
        (if Size v = Capacity v then (if Size v = 0 then 1 else Size v * 2) else Capacity v)"
    by (rule PushBack_capacity)
  show "Size (vec (PushBack T a v)) = Size v + 1"
  proof (cases "m_size v = Capacity v")
    case True
    obtain r v' l where e: "Emplace_realloc T (m_size v) a v = Result r v' l"
      by (cases "Emplace_realloc T (m_size v) a v")
    with ok True obtain u where "r = Inr u"
      by (cases r) (simp_all add: PushBack_def EmplaceBack_def Emplace_def)
    with e Emplace_realloc_shape[of T "m_size v" a v u v' l] True show ?thesis
      by (simp add: PushBack_def EmplaceBack_def Emplace_def Size_def)
  next
    case False
    with ok show ?thesis
      by (simp add: PushBack_def EmplaceBack_def Size_def split: sum.splits)
  qed
  assume "Size v \<noteq> Capacity v"
  with ok show "\<exists>x. m_buffer (m_data (vec (PushBack T a v))) =
                construct_at (m_buffer (m_data v)) (Size v) x"
    by (rule PushBack_no_growth)
next
  assume thrown: "outcome (PushBack T a v) \<noteq> Inr ()"
  then show "Size (vec (PushBack T a v)) = Size v"
    by (simp add: PushBack_throw_capacity)
  from thrown show "Capacity (vec (PushBack T a v)) = Capacity v"
    by (simp add: PushBack_throw_capacity)
next
  assume spare: "Size v \<noteq> Capacity v"
  then show "outcome (PushBack T a v) \<noteq> Inl bad_alloc"
    by (rule PushBack_spare_no_bad_alloc)
  from spare show "PushBack (T\<lparr>alloc_fails := f\<rparr>) a v = PushBack T a v"
    by (rule PushBack_spare_allocator)
  from spare show "Capacity (vec (PushBack T a v)) = Capacity v"
    by (rule PushBack_spare_capacity)
qed


theorem PushBack_doubling_witness:
  "outcome (PushBack trivial_type (Copy_of 3) (mk_vector 2 [1, 2::int])) = Inr () \<and>
   Size (vec (PushBack trivial_type (Copy_of 3) (mk_vector 2 [1, 2::int]))) = 3 \<and>
   Capacity (vec (PushBack trivial_type (Copy_of 3) (mk_vector 2 [1, 2::int]))) = 4 \<and>
   outcome (PushBack trivial_type (Copy_of 4) (mk_vector 4 [1, 2, 3::int])) = Inr () \<and>
   Size (mk_vector 4 [1, 2, 3::int]) \<noteq> Capacity (mk_vector 4 [1, 2, 3::int]) \<and>
   Capacity (vec (PushBack trivial_type (Copy_of 4) (mk_vector 4 [1, 2, 3::int]))) = 4 \<and>
   PushBack (trivial_type\<lparr>alloc_fails := (\<lambda>n. True)\<rparr>) (Copy_of 4) (mk_vector 4 [1, 2, 3::int]) =
     PushBack trivial_type (Copy_of 4) (mk_vector 4 [1, 2, 3::int]) \<and>
   outcome (PushBack trivial_type (Copy_of 4) (mk_vector 4 [1, 2, 3::int])) \<noteq> Inl bad_alloc \<and>
   outcome (PushBack trivial_type (Copy_of (1::int)) Vector_default) = Inr () \<and>
   Capacity (vec (PushBack trivial_type (Copy_of (1::int)) Vector_default)) = 1 \<and>
   outcome (PushBack (throwing_copy [5]) (Copy_of 5) (mk_vector 2 [3, 4::int])) \<noteq> Inr () \<and>
   Size (vec (PushBack (throwing_copy [5]) (Copy_of 5) (mk_vector 2 [3, 4::int]))) = 2 \<and>
   Capacity (vec (PushBack (throwing_copy [5]) (Copy_of 5) (mk_vector 2 [3, 4::int]))) = 2"
proof -
  have h1: "outcome (PushBack trivial_type (Copy_of 3) (mk_vector 2 [1, 2::int])) = Inr ()"
    by code_simp
  have h2: "outcome (PushBack trivial_type (Copy_of 4) (mk_vector 4 [1, 2, 3::int])) = Inr ()"
    by code_simp
  have h3: "outcome (PushBack trivial_type (Copy_of (1::int)) Vector_default) = Inr ()"
    by code_simp
  have h4: "outcome (PushBack (throwing_copy [5]) (Copy_of 5) (mk_vector 2 [3, 4::int])) \<noteq> Inr ()"
    by code_simp
  have s: "Size (mk_vector 2 [1, 2::int]) = 2" "Capacity (mk_vector 2 [1, 2::int]) = 2"
    "Size (mk_vector 2 [3, 4::int]) = 2" "Capacity (mk_vector 2 [3, 4::int]) = 2"
    "Size (mk_vector 4 [1, 2, 3::int]) = 3" "Capacity (mk_vector 4 [1, 2, 3::int]) = 4"
    "Size (Vector_default :: int Vector) = 0" "Capacity (Vector_default :: int Vector) = 0"
    by (simp_all add: Size_def Capacity_def Vector_default_def RawMemory_default_def)
  from PushBack_doubling[of trivial_type "Copy_of 3" "mk_vector 2 [1, 2::int]"]
    PushBack_doubling[of trivial_type "Copy_of 4" "mk_vector 4 [1, 2, 3::int]" "\<lambda>n. True"]
    PushBack_doubling[of trivial_type "Copy_of (1::int)" Vector_default]
    PushBack_doubling[of "throwing_copy [5]" "Copy_of 5" "mk_vector 2 [3, 4::int]"]
    h1 h2 h3 h4 s
  show ?thesis by simp
qed


section \<open>Copy assignment into sufficient storage\<close>


lemma ResizeToSmallerRhs_mk_vector:
  assumes ok: "outcome (ResizeToSmallerRhs T (mk_vector capB ys) (mk_vector capA xs)) = Inr ()"
    and xs: "length xs \<le> capA" and ys: "length ys \<le> capA" and ysB: "length ys \<le> capB"
  shows "ResizeToSmallerRhs T (mk_vector capB ys) (mk_vector capA xs) =
           Result (Inr ()) (mk_vector capA ys) []"
proof -
  let ?A = "map Some xs @ replicate (capA - length xs) None"
  let ?B = "map Some ys @ replicate (capB - length ys) None"
  let ?R = "map Some ys @ replicate (capA - length ys) None"
  have A: "?A ! i = (if i < length xs then Some (xs ! i) else None)" if "i < capA" for i
    using nth_slots[OF that xs] .
  have B: "?B ! i = (if i < length ys then Some (ys ! i) else None)" if "i < capB" for i
    using nth_slots[OF that ysB] .
  have R: "?R ! i = (if i < length ys then Some (ys ! i) else None)" if "i < capA" for i
    using nth_slots[OF that ys] .
  obtain r b1 where c1: "copy_n T ?B 0 (min (length xs) (length ys)) ?A 0 = (r, b1)"
    by (cases "copy_n T ?B 0 (min (length xs) (length ys)) ?A 0")
  with ok have r: "r = None"
    by (cases r) (simp_all add: ResizeToSmallerRhs_def)
  from copy_n_success[OF c1[unfolded r]] xs have len1: "length b1 = capA"
    and nth1: "\<And>i. i < capA \<Longrightarrow> b1 ! i = (if i < min (length xs) (length ys) then ?B ! i else ?A ! i)"
    by simp_all
  show ?thesis
  proof (cases "length xs > length ys")
    case True
    have "destroy_n b1 (length ys) (length xs - length ys) = ?R"
    proof (rule nth_equalityI)
      show "length (destroy_n b1 (length ys) (length xs - length ys)) = length ?R"
        using len1 ys by simp
    next
      fix i assume "i < length (destroy_n b1 (length ys) (length xs - length ys))"
      then have i: "i < capA" using len1 by simp
      have iB: "i < length ys \<Longrightarrow> i < capB" using ysB by simp
      from i len1 have "destroy_n b1 (length ys) (length xs - length ys) ! i =
          (if length ys \<le> i \<and> i < length ys + (length xs - length ys) then None else b1 ! i)"
        by (simp add: nth_destroy_n)
      with True nth1[OF i] A[OF i] B R[OF i] iB show
        "destroy_n b1 (length ys) (length xs - length ys) ! i = ?R ! i"
        by (auto simp: min_def)
    qed
    with True c1 r show ?thesis
      by (simp add: ResizeToSmallerRhs_def with_buffer_def mk_vector_def)
  next
    case False
    obtain r2 b2 where c2:
      "uninitialized_copy_n T ?B (length xs) (length ys - length xs) b1 (length xs) = (r2, b2)"
      by (cases "uninitialized_copy_n T ?B (length xs) (length ys - length xs) b1 (length xs)")
    with ok c1 r False have r2: "r2 = None"
      by (cases r2) (simp_all add: ResizeToSmallerRhs_def)
    from c2 r2 have "uninitialized_copy_loop T ?B (length xs) b1 (length xs) (length xs)
                       (length ys - length xs) = (None, b2)"
      by (simp add: uninitialized_copy_n_def)
    from uninitialized_copy_loop_success[OF this] len1 have len2: "length b2 = capA"
      and nth2: "\<And>i. i < capA \<Longrightarrow> b2 ! i =
          (if length xs \<le> i \<and> i < length xs + (length ys - length xs)
           then ?B ! (length xs + (i - length xs)) else b1 ! i)"
      by simp_all
    have "b2 = ?R"
    proof (rule nth_equalityI)
      show "length b2 = length ?R" using len2 ys by simp
    next
      fix i assume "i < length b2"
      then have i: "i < capA" using len2 by simp
      have iB: "i < length ys \<Longrightarrow> i < capB" using ysB by simp
      from False nth2[OF i] nth1[OF i] A[OF i] B[of i] R[OF i] iB show "b2 ! i = ?R ! i"
        by (auto simp: min_def)
    qed
    with False c1 r c2 r2 show ?thesis
      by (simp add: ResizeToSmallerRhs_def with_buffer_def mk_vector_def)
  qed
qed


lemma ResizeToSmallerRhs_succeeds:
  assumes xs: "length xs \<le> capA" and ys: "length ys \<le> capA" and ysB: "length ys \<le> capB"
    and assign: "list_all (\<lambda>x. \<not> copy_assign_throws T x) (take (min (length xs) (length ys)) ys)"
    and build: "list_all (\<lambda>x. \<not> copy_throws T x) (drop (length xs) ys)"
  shows "outcome (ResizeToSmallerRhs T (mk_vector capB ys) (mk_vector capA xs)) = Inr ()"
proof -
  let ?A = "map Some xs @ replicate (capA - length xs) None"
  let ?B = "map Some ys @ replicate (capB - length ys) None"
  have B: "?B ! i = Some (ys ! i)" if "i < length ys" for i
    using that by (simp add: nth_append)
  have "\<forall>k<min (length xs) (length ys). 0 + k < length ?B \<and> ?B ! (0 + k) \<noteq> None \<and>
          \<not> copy_assign_throws T (the (?B ! (0 + k)))"
  proof (intro allI impI)
    fix k assume k: "k < min (length xs) (length ys)"
    with assign have "\<not> copy_assign_throws T (ys ! k)" by (simp add: list_all_length)
    with k B[of k] ysB show "0 + k < length ?B \<and> ?B ! (0 + k) \<noteq> None \<and>
          \<not> copy_assign_throws T (the (?B ! (0 + k)))" by simp
  qed
  then have c1: "fst (copy_n T ?B 0 (min (length xs) (length ys)) ?A 0) = None"
    by (rule copy_n_total)
  obtain b1 where b1: "copy_n T ?B 0 (min (length xs) (length ys)) ?A 0 = (None, b1)"
    using c1 by (cases "copy_n T ?B 0 (min (length xs) (length ys)) ?A 0") simp
  have "\<forall>k<length ys - length xs. length xs + k < length ?B \<and> ?B ! (length xs + k) \<noteq> None \<and>
          \<not> copy_throws T (the (?B ! (length xs + k)))"
  proof (intro allI impI)
    fix k assume k: "k < length ys - length xs"
    with build have "\<not> copy_throws T (ys ! (length xs + k))" by (simp add: list_all_length)
    with k B[of "length xs + k"] ysB show "length xs + k < length ?B \<and> ?B ! (length xs + k) \<noteq> None \<and>
          \<not> copy_throws T (the (?B ! (length xs + k)))" by simp
  qed
  moreover from copy_n_success[OF b1] xs have "length b1 = capA" by simp
  with xs ys have "length xs + (length ys - length xs) \<le> length b1" by simp
  ultimately have "fst (uninitialized_copy_loop T ?B (length xs) b1 (length xs) (length xs)
                    (length ys - length xs)) = None"
    by (rule uninitialized_copy_loop_total)
  then obtain b2 where
    "uninitialized_copy_n T ?B (length xs) (length ys - length xs) b1 (length xs) = (None, b2)"
    by (cases "uninitialized_copy_loop T ?B (length xs) b1 (length xs) (length xs)
                    (length ys - length xs)") (simp add: uninitialized_copy_n_def)
  with b1 show ?thesis
    by (simp add: ResizeToSmallerRhs_def)
qed


text \<open>
  Claim C6, as stated. The claim promises, for every pair of distinct vectors with
  \<open>B.Size() \<le> A.Capacity()\<close>, that \<open>A = B\<close> sets \<open>A.Size()\<close> to \<open>B.Size()\<close>. The element
  operations of \<open>ResizeToSmallerRhs\<close> may throw, and \<open>size_\<close> is written only after the last
  of them (lines 305 and 308). With \<open>A = [1]\<close> of capacity 4 and \<open>B = [7, 8, 9]\<close>, and a copy
  constructor that throws on 9, the assignment throws: \<open>A\<close> keeps size 1, its element is 7,
  and the copy of 8 has been destroyed again by \<open>uninitialized_copy_n\<close>.
\<close>


theorem copy_assign_throw_counterexample:
  "0 \<noteq> (1::nat) \<and>
   Vector_inv (mk_vector 4 [1::int]) \<and> Vector_inv (mk_vector 3 [7, 8, 9::int]) \<and>
   Size (mk_vector 3 [7, 8, 9::int]) \<le> Capacity (mk_vector 4 [1::int]) \<and>
   fst (copy_assign (throwing_copy [9])
          (two_vectors (mk_vector 4 [1]) (mk_vector 3 [7, 8, 9::int])) 0 1) =
     Inl element_exception \<and>
   fst (snd (copy_assign (throwing_copy [9])
          (two_vectors (mk_vector 4 [1]) (mk_vector 3 [7, 8, 9::int])) 0 1)) 0 =
     mk_vector 4 [7] \<and>
   Size (fst (snd (copy_assign (throwing_copy [9])
          (two_vectors (mk_vector 4 [1]) (mk_vector 3 [7, 8, 9::int])) 0 1)) 0) = 1 \<and>
   Size (fst (snd (copy_assign (throwing_copy [9])
          (two_vectors (mk_vector 4 [1]) (mk_vector 3 [7, 8, 9::int])) 0 1)) 0) \<noteq>
     Size (mk_vector 3 [7, 8, 9::int]) \<and>
   elements (fst (snd (copy_assign (throwing_copy [9])
          (two_vectors (mk_vector 4 [1]) (mk_vector 3 [7, 8, 9::int])) 0 1)) 0) = [7]"
proof -
  have inv: "Vector_inv (mk_vector 4 [1::int])" "Vector_inv (mk_vector 3 [7, 8, 9::int])"
    by (simp_all add: Vector_inv_mk_vector)
  have thrown: "fst (copy_assign (throwing_copy [9])
          (two_vectors (mk_vector 4 [1]) (mk_vector 3 [7, 8, 9::int])) 0 1) =
     Inl element_exception"
    by code_simp
  have left: "fst (snd (copy_assign (throwing_copy [9])
          (two_vectors (mk_vector 4 [1]) (mk_vector 3 [7, 8, 9::int])) 0 1)) 0 =
     mk_vector 4 [7]"
    by code_simp
  have sizes: "Size (mk_vector 3 [7, 8, 9::int]) \<le> Capacity (mk_vector 4 [1::int])"
    "Size (mk_vector 4 [7::int]) = 1"
    "Size (mk_vector 4 [7::int]) \<noteq> Size (mk_vector 3 [7, 8, 9::int])"
    by (simp_all add: Size_def Capacity_def)
  from inv thrown left sizes show ?thesis by simp
qed


text \<open>
  Claim C6, amended. Let \<open>A\<close> (at address \<open>this\<close>) and \<open>B\<close> (at address \<open>rhs\<close>) be distinct
  well-formed vectors with \<open>B.Size() \<le> A.Capacity()\<close>, and let the element operations used not
  throw: the copy assignment on the first \<open>min(A.Size(), B.Size())\<close> elements of \<open>B\<close>, the copy
  construction on the elements of \<open>B\<close> from index \<open>A.Size()\<close> on. Then \<open>A = B\<close> returns
  normally, \<open>A\<close> keeps its capacity, its size becomes \<open>B.Size()\<close>, its first \<open>B.Size()\<close> slots
  hold the values of \<open>B\<close> and every slot behind them is uninitialised (the tail of a longer
  \<open>A\<close> has been destroyed); \<open>B\<close> is unchanged and no object is lost.
\<close>


theorem copy_assign_reuses_storage:
  assumes "this \<noteq> rhs"
    and "Vector_inv (st this)" and "Vector_inv (st rhs)"
    and "Size (st rhs) \<le> Capacity (st this)"
    and "list_all (\<lambda>x. \<not> copy_assign_throws T x)
           (take (min (Size (st this)) (Size (st rhs))) (elements (st rhs)))"
    and "list_all (\<lambda>x. \<not> copy_throws T x) (drop (Size (st this)) (elements (st rhs)))"
  shows "copy_assign T st this rhs =
           (Inr (), st(this := mk_vector (Capacity (st this)) (elements (st rhs))), []) \<and>
         Capacity (fst (snd (copy_assign T st this rhs)) this) = Capacity (st this) \<and>
         Size (fst (snd (copy_assign T st this rhs)) this) = Size (st rhs) \<and>
         elements (fst (snd (copy_assign T st this rhs)) this) = elements (st rhs) \<and>
         (\<forall>i. slot_at (m_buffer (m_data (fst (snd (copy_assign T st this rhs)) this))) i =
               (if i < Size (st rhs) then Some (elements (st rhs) ! i) else None)) \<and>
         Vector_inv (fst (snd (copy_assign T st this rhs)) this) \<and>
         fst (snd (copy_assign T st this rhs)) rhs = st rhs"
proof -
  let ?xs = "elements (st this)" and ?ys = "elements (st rhs)"
  let ?capA = "Capacity (st this)" and ?capB = "Capacity (st rhs)"
  from assms(2) have A: "st this = mk_vector ?capA ?xs" and lx: "length ?xs = Size (st this)"
    and xs: "length ?xs \<le> ?capA"
    using Vector_inv_imp_mk_vector[of "st this"] by (simp_all add: Capacity_def Size_def Vector_inv_def)
  from assms(3) have B: "st rhs = mk_vector ?capB ?ys" and ly: "length ?ys = Size (st rhs)"
    and ysB: "length ?ys \<le> ?capB"
    using Vector_inv_imp_mk_vector[of "st rhs"] by (simp_all add: Capacity_def Size_def Vector_inv_def)
  from assms(4) ly have ys: "length ?ys \<le> ?capA" by simp
  have "outcome (ResizeToSmallerRhs T (mk_vector ?capB ?ys) (mk_vector ?capA ?xs)) = Inr ()"
    using xs ys ysB assms(5,6) lx ly by (intro ResizeToSmallerRhs_succeeds) simp_all
  then have "ResizeToSmallerRhs T (mk_vector ?capB ?ys) (mk_vector ?capA ?xs) =
           Result (Inr ()) (mk_vector ?capA ?ys) []"
    using xs ys ysB by (rule ResizeToSmallerRhs_mk_vector)
  with A B have res: "ResizeToSmallerRhs T (st rhs) (st this) = Result (Inr ()) (mk_vector ?capA ?ys) []"
    by simp
  from assms(4) have "\<not> m_size (st rhs) > m_capacity (m_data (st this))"
    by (simp add: Size_def Capacity_def)
  with assms(1) res have eq: "copy_assign T st this rhs =
           (Inr (), st(this := mk_vector ?capA ?ys), [])"
    by (simp add: copy_assign_def)
  from eq assms(1) ys ly slot_at_mk_vector[OF ys] show ?thesis
    by (simp add: Size_def Capacity_def Vector_inv_mk_vector)
qed


theorem copy_assign_reuses_storage_witness:
  "copy_assign trivial_type (two_vectors (mk_vector 4 [1, 2, 3]) (mk_vector 2 [7])) 0 1 =
     (Inr (), (two_vectors (mk_vector 4 [1, 2, 3]) (mk_vector 2 [7]))(0 := mk_vector 4 [7]), []) \<and>
   copy_assign trivial_type (two_vectors (mk_vector 4 [1]) (mk_vector 3 [7, 8, 9])) 0 1 =
     (Inr (), (two_vectors (mk_vector 4 [1]) (mk_vector 3 [7, 8, 9]))(0 := mk_vector 4 [7, 8, 9]), [])"
proof -
  let ?st1 = "two_vectors (mk_vector 4 [1, 2, 3]) (mk_vector 2 [7])"
  let ?st2 = "two_vectors (mk_vector 4 [1]) (mk_vector 3 [7, 8, 9])"
  have ne: "(0::nat) \<noteq> 1" by simp
  have i1: "Vector_inv (?st1 0)" "Vector_inv (?st1 1)" "Vector_inv (?st2 0)" "Vector_inv (?st2 1)"
    by (simp_all add: two_vectors_def Vector_inv_mk_vector)
  have c1: "Size (?st1 1) \<le> Capacity (?st1 0)" "Size (?st2 1) \<le> Capacity (?st2 0)"
    by (simp_all add: two_vectors_def Size_def Capacity_def)
  have a1: "list_all (\<lambda>x. \<not> copy_assign_throws trivial_type x)
           (take (min (Size (?st1 0)) (Size (?st1 1))) (elements (?st1 1)))"
    "list_all (\<lambda>x. \<not> copy_assign_throws trivial_type x)
           (take (min (Size (?st2 0)) (Size (?st2 1))) (elements (?st2 1)))"
    by (simp_all add: trivial_type_def list_all_iff)
  have b1: "list_all (\<lambda>x. \<not> copy_throws trivial_type x) (drop (Size (?st1 0)) (elements (?st1 1)))"
    "list_all (\<lambda>x. \<not> copy_throws trivial_type x) (drop (Size (?st2 0)) (elements (?st2 1)))"
    by (simp_all add: trivial_type_def list_all_iff)
  from copy_assign_reuses_storage[OF ne i1(1) i1(2) c1(1) a1(1) b1(1)]
    copy_assign_reuses_storage[OF ne i1(3) i1(4) c1(2) a1(2) b1(2)]
  show ?thesis
    by (simp add: two_vectors_def Capacity_def)
qed


section \<open>Move construction and self-assignment\<close>


lemma Vector_move_ctor_eq: "Vector_move_ctor a = (a, Vector_default)"
  by (simp add: Vector_move_ctor_def Swap_def RawMemory_Swap_def Vector_default_def RawMemory_default_def)


text \<open>
  Claim C7. Move constructing \<open>B\<close> from \<open>A\<close> gives \<open>B\<close> the state \<open>A\<close> had (size, capacity and
  elements) and leaves \<open>A\<close> with size 0, capacity 0 and no block. \<open>Vector_move_ctor\<close> has no
  exceptional outcome: it only swaps.
\<close>


theorem move_construct_transfers:
  "fst (Vector_move_ctor a) = a \<and>
   Size (fst (Vector_move_ctor a)) = Size a \<and>
   Capacity (fst (Vector_move_ctor a)) = Capacity a \<and>
   elements (fst (Vector_move_ctor a)) = elements a \<and>
   Size (snd (Vector_move_ctor a)) = 0 \<and>
   Capacity (snd (Vector_move_ctor a)) = 0 \<and>
   m_buffer (m_data (snd (Vector_move_ctor a))) = []"
  by (simp add: Vector_move_ctor_def Swap_def RawMemory_Swap_def Vector_default_def
      RawMemory_default_def Size_def Capacity_def elements_def)


text \<open>
  Claim C10. Copy assigning and move assigning a vector to itself change nothing: the store
  is the same afterwards, and the copy assignment returns normally and loses no object.
\<close>


theorem self_assignment_noop:
  "copy_assign T st a a = (Inr (), st, []) \<and> move_assign st a a = st"
  by (simp add: copy_assign_def move_assign_def)


section \<open>Erase\<close>


lemma Erase_mk_vector:
  assumes p: "p < length xs" and cap: "length xs \<le> cap"
    and nothrow: "list_all (\<lambda>x. \<not> move_assign_throws T x) (drop (Suc p) xs)"
  shows "Erase T p (mk_vector cap xs) = Result (Inr p) (mk_vector cap (take p xs @ drop (Suc p) xs)) []"
proof -
  let ?buf = "map Some xs @ replicate (cap - length xs) None"
  let ?n = "length xs - Suc p"
  have pre: "\<forall>k<?n. Suc p + k < length ?buf \<and>
               (\<exists>x. ?buf ! (Suc p + k) = Some x \<and> \<not> move_assign_throws T x)"
  proof (intro allI impI)
    fix k assume k: "k < ?n"
    then have "Suc p + k < length xs" by simp
    moreover from nothrow k have "\<not> move_assign_throws T (drop (Suc p) xs ! k)"
      by (simp add: list_all_length)
    ultimately show "Suc p + k < length ?buf \<and>
               (\<exists>x. ?buf ! (Suc p + k) = Some x \<and> \<not> move_assign_throws T x)"
      by (simp add: nth_append)
  qed
  from std_move_loop_shift[OF pre] obtain buf' where
    run: "std_move_loop T ?buf (Suc p) p ?n = (None, buf')"
    and len: "length buf' = length ?buf"
    and nth: "\<forall>i<length ?buf. buf' ! i =
              (if p \<le> i \<and> i < p + ?n then ?buf ! Suc i
               else if 0 < ?n \<and> i = p + ?n then map_option (moved_from T) (?buf ! i)
               else ?buf ! i)"
    by blast
  let ?ys = "take p xs @ drop (Suc p) xs"
  have lys: "length ?ys = length xs - 1" using p by simp
  have "destroy_at buf' (length xs - 1) = map Some ?ys @ replicate (cap - length ?ys) None"
  proof (rule nth_equalityI)
    show "length (destroy_at buf' (length xs - 1)) =
          length (map Some ?ys @ replicate (cap - length ?ys) None)"
      using len cap p by (simp add: destroy_at_def)
  next
    fix i assume "i < length (destroy_at buf' (length xs - 1))"
    then have i: "i < cap" using len cap by (simp add: destroy_at_def)
    then have i': "i < length ?buf" using cap by simp
    have c: "i < p \<or> (p \<le> i \<and> i < length xs - 1) \<or> i = length xs - 1 \<or> length xs \<le> i"
      by linarith
    show "destroy_at buf' (length xs - 1) ! i =
               (map Some ?ys @ replicate (cap - length ?ys) None) ! i"
    proof -
      have rhs: "(map Some ?ys @ replicate (cap - length ?ys) None) ! i =
                 (if i < length xs - 1 then Some (if i < p then xs ! i else xs ! Suc i) else None)"
        using nth_slots[of i cap ?ys] nth_without[OF p, of i] i cap lys by simp
      have lhs0: "?buf ! j = (if j < length xs then Some (xs ! j) else None)" if "j < cap" for j
        using nth_slots[of j cap xs] that cap by simp
      from c consider "i < p" | "p \<le> i" "i < length xs - 1" | "i = length xs - 1" | "length xs \<le> i"
        by blast
      then show ?thesis
      proof cases
        case 1
        then have "i \<noteq> length xs - 1" "i < length xs" "i < length xs - 1" "\<not> p \<le> i"
          "i \<noteq> p + ?n" using p by simp_all
        with nth[rule_format, OF i'] len i' lhs0[OF i] rhs 1 show ?thesis
          by (simp add: destroy_at_def)
      next
        case 2
        then have "i \<noteq> length xs - 1" "Suc i < length xs" "i < p + ?n" "Suc i < cap" "\<not> i < p"
          using cap by simp_all
        with 2 nth[rule_format, OF i'] len i' lhs0[of "Suc i"] rhs show ?thesis
          by (simp add: destroy_at_def)
      next
        case 3
        with p i len i' rhs show ?thesis
          by (simp add: destroy_at_def)
      next
        case 4
        then have "i \<noteq> length xs - 1" "\<not> i < p + ?n" "i \<noteq> p + ?n" "\<not> i < length xs - 1"
          "\<not> i < length xs"
          using p by simp_all
        with nth[rule_format, OF i'] len i' lhs0[OF i] rhs show ?thesis
          by (simp add: destroy_at_def)
      qed
    qed
  qed
  with run p lys show ?thesis
    by (simp add: Erase_def std_move_def with_buffer_def mk_vector_def)
qed


text \<open>
  Claim C8, as stated. The claim promises, for every vector and every position of a live
  element, that \<open>Erase\<close> shifts the elements behind the position and takes one off the size.
  \<open>std::move\<close> assigns element by element and \<open>T\<close>'s move assignment may throw; \<open>Erase\<close> has no
  handler, and \<open>size_\<close> is written after the loop (line 285). On \<open>[1, 2, 3]\<close>, with a move
  assignment that throws on 3, \<open>Erase\<close> at position 0 throws after the first assignment: the
  vector holds \<open>[2, 2, 3]\<close> and its size is still 3, where the claim gives \<open>[2, 3]\<close> and 2.
\<close>


theorem Erase_throw_counterexample:
  "Vector_inv (mk_vector 3 [1, 2, 3::int]) \<and>
   0 < Size (mk_vector 3 [1, 2, 3::int]) \<and>
   Erase (throwing_move_assign [3]) 0 (mk_vector 3 [1, 2, 3::int]) =
     Result (Inl element_exception) (mk_vector 3 [2, 2, 3]) [] \<and>
   Size (vec (Erase (throwing_move_assign [3]) 0 (mk_vector 3 [1, 2, 3::int]))) = 3 \<and>
   Size (vec (Erase (throwing_move_assign [3]) 0 (mk_vector 3 [1, 2, 3::int]))) \<noteq>
     Size (mk_vector 3 [1, 2, 3::int]) - 1 \<and>
   elements (vec (Erase (throwing_move_assign [3]) 0 (mk_vector 3 [1, 2, 3::int]))) = [2, 2, 3] \<and>
   elements (vec (Erase (throwing_move_assign [3]) 0 (mk_vector 3 [1, 2, 3::int]))) \<noteq> [2, 3]"
proof -
  have inv: "Vector_inv (mk_vector 3 [1, 2, 3::int])"
    by (simp add: Vector_inv_mk_vector)
  have run: "Erase (throwing_move_assign [3]) 0 (mk_vector 3 [1, 2, 3::int]) =
     Result (Inl element_exception) (mk_vector 3 [2, 2, 3]) []"
    by code_simp
  from inv run show ?thesis by (simp add: Size_def)
qed


text \<open>
  Claim C8, amended. Let \<open>position\<close> refer to an element of a well-formed vector, and let no move
  assignment of an element behind \<open>position\<close> throw. Then \<open>Erase\<close> returns \<open>position\<close>, the
  elements behind \<open>position\<close> have moved one slot to the left, the last slot is uninitialised,
  the size is one less, and the capacity is unchanged. The witness is the erasure at position 1
  of \<open>[1, 2, 3, 4]\<close>, which gives \<open>[1, 3, 4]\<close> with size 3.
\<close>


theorem Erase_spec:
  assumes "Vector_inv v" and "position < Size v"
    and "list_all (\<lambda>x. \<not> move_assign_throws T x) (drop (Suc position) (elements v))"
  shows "Erase T position v =
           Result (Inr position)
             (mk_vector (Capacity v) (take position (elements v) @ drop (Suc position) (elements v))) [] \<and>
         Size (vec (Erase T position v)) = Size v - 1 \<and>
         Capacity (vec (Erase T position v)) = Capacity v \<and>
         elements (vec (Erase T position v)) =
           take position (elements v) @ drop (Suc position) (elements v) \<and>
         slot_at (m_buffer (m_data (vec (Erase T position v)))) (Size v - 1) = None \<and>
         Vector_inv (vec (Erase T position v))"
proof -
  let ?xs = "elements v"
  let ?ys = "take position ?xs @ drop (Suc position) ?xs"
  from assms(1) have v: "v = mk_vector (Capacity v) ?xs" and len: "length ?xs = Size v"
    and le: "Size v \<le> Capacity v"
    using Vector_inv_imp_mk_vector[of v] by (simp_all add: Capacity_def Size_def Vector_inv_def)
  from assms(2) len have p: "position < length ?xs" by simp
  from le len have cap: "length ?xs \<le> Capacity v" by simp
  have "Erase T position (mk_vector (Capacity v) ?xs) =
          Result (Inr position) (mk_vector (Capacity v) ?ys) []"
    using p cap assms(3) by (rule Erase_mk_vector)
  with v have eq: "Erase T position v = Result (Inr position) (mk_vector (Capacity v) ?ys) []"
    by simp
  have lys: "length ?ys = Size v - 1" using p len by simp
  from lys le assms(2) have lys': "length ?ys \<le> Capacity v" by simp
  have "slot_at (m_buffer (m_data (mk_vector (Capacity v) ?ys))) (Size v - 1) = None"
    using slot_at_mk_vector[OF lys', of "Size v - 1"] lys by simp
  with eq lys lys' show ?thesis
    by (simp add: Size_def Capacity_def Vector_inv_mk_vector del: length_append)
qed


theorem Erase_spec_witness:
  "Vector_inv (mk_vector 4 [1, 2, 3, 4::int]) \<and>
   Erase trivial_type 1 (mk_vector 4 [1, 2, 3, 4::int]) = Result (Inr 1) (mk_vector 4 [1, 3, 4]) [] \<and>
   elements (vec (Erase trivial_type 1 (mk_vector 4 [1, 2, 3, 4::int]))) = [1, 3, 4] \<and>
   Size (vec (Erase trivial_type 1 (mk_vector 4 [1, 2, 3, 4::int]))) = 3"
proof -
  have h1: "Vector_inv (mk_vector 4 [1, 2, 3, 4::int])" by (simp add: Vector_inv_mk_vector)
  have h2: "(1::nat) < Size (mk_vector 4 [1, 2, 3, 4::int])" by (simp add: Size_def)
  have h3: "list_all (\<lambda>x. \<not> move_assign_throws trivial_type x)
              (drop (Suc 1) (elements (mk_vector 4 [1, 2, 3, 4::int])))"
    by (simp add: trivial_type_def)
  from Erase_spec[OF h1 h2 h3] h1 show ?thesis
    by (simp add: Size_def Capacity_def)
qed


section \<open>PopBack\<close>


lemma PopBack_mk_vector:
  assumes "xs \<noteq> []" and "length xs \<le> cap"
  shows "PopBack (mk_vector cap xs) = mk_vector cap (butlast xs)"
proof -
  from assms(1) obtain ys y where xs: "xs = ys @ [y]" by (cases xs rule: rev_cases) auto
  with assms(2) have "cap - length ys = Suc (cap - Suc (length ys))" by simp
  with xs show ?thesis
    by (simp add: PopBack_def mk_vector_def destroy_at_def list_update_append replicate_app_Cons_same)
qed


text \<open>
  Claim C9. On a non-empty well-formed vector \<open>PopBack\<close> destroys the last element (its slot
  becomes uninitialised) and decrements the size by one; capacity and the other elements stay.
  On an empty vector it changes nothing. \<open>PopBack\<close> has no exceptional outcome: it is a
  function from vectors to vectors.
\<close>


theorem PopBack_spec:
  assumes "Vector_inv v"
  shows "(0 < Size v \<longrightarrow>
            PopBack v = mk_vector (Capacity v) (butlast (elements v)) \<and>
            Size (PopBack v) = Size v - 1 \<and>
            Capacity (PopBack v) = Capacity v \<and>
            elements (PopBack v) = butlast (elements v) \<and>
            slot_at (m_buffer (m_data (PopBack v))) (Size v - 1) = None \<and>
            Vector_inv (PopBack v)) \<and>
         (Size v = 0 \<longrightarrow> PopBack v = v)"
proof (intro conjI impI)
  assume "Size v = 0"
  then show "PopBack v = v" by (simp add: PopBack_def Size_def)
next
  assume pos: "0 < Size v"
  let ?xs = "elements v"
  from assms have v: "v = mk_vector (Capacity v) ?xs" and len: "length ?xs = Size v"
    and le: "Size v \<le> Capacity v"
    using Vector_inv_imp_mk_vector[of v] by (simp_all add: Capacity_def Size_def Vector_inv_def)
  from pos len have ne: "?xs \<noteq> []" by auto
  from PopBack_mk_vector[OF ne, of "Capacity v"] len le v
  show eq: "PopBack v = mk_vector (Capacity v) (butlast ?xs)" by simp
  from eq len show "Size (PopBack v) = Size v - 1" by (simp add: Size_def)
  from eq show "Capacity (PopBack v) = Capacity v" by (simp add: Capacity_def)
  from eq show "elements (PopBack v) = butlast ?xs" by simp
  from eq len le show "Vector_inv (PopBack v)" by (simp add: Vector_inv_mk_vector)
  from eq len pos show "slot_at (m_buffer (m_data (PopBack v))) (Size v - 1) = None"
    by (simp add: slot_at_def nth_append)
qed


theorem PopBack_spec_witness:
  "Vector_inv (mk_vector 4 [1, 2, 3::int]) \<and>
   PopBack (mk_vector 4 [1, 2, 3::int]) = mk_vector 4 [1, 2] \<and>
   Size (PopBack (mk_vector 4 [1, 2, 3::int])) = 2 \<and>
   Vector_inv (Vector_default :: int Vector) \<and>
   PopBack (Vector_default :: int Vector) = Vector_default"
proof -
  have w1: "Vector_inv (mk_vector 4 [1, 2, 3::int])" by (simp add: Vector_inv_mk_vector)
  have w2: "Vector_inv (Vector_default :: int Vector)"
    by (simp add: Vector_inv_def Vector_default_def RawMemory_default_def)
  have s1: "Size (mk_vector 4 [1, 2, 3::int]) = 3" "Capacity (mk_vector 4 [1, 2, 3::int]) = 4"
    by (simp_all add: Size_def Capacity_def)
  have s2: "Size (Vector_default :: int Vector) = 0" by (simp add: Size_def Vector_default_def)
  from PopBack_spec[OF w1] PopBack_spec[OF w2] w1 w2 s1 s2 show ?thesis by (simp add: Size_def)
qed


section \<open>The invariant under the four operations\<close>


text \<open>
  \<open>PushBack\<close>, \<open>PopBack\<close> and \<open>Erase\<close> keep a vector well formed in every outcome, and so
  does \<open>Emplace\<close> whenever it returns, whenever it reallocates, and whenever the constructor of
  the new element does not throw. A reallocating \<open>Emplace\<close> that returns has filled
  \<open>size_ + 1\<close> slots of its new block, so the byte count of the request did not wrap
  (\<open>doubled_block_no_wrap\<close>) and the block has as many slots as the new capacity says. Hence
  every vector of a run of operations is well formed as long as no call has thrown, and
  \<open>Size() \<le> Capacity()\<close> holds after every call, thrown or not.
\<close>


lemma Erase_inv:
  assumes "Vector_inv v"
  shows "Vector_inv (vec (Erase T p v))"
proof (cases "p < m_size v")
  case False
  with assms show ?thesis by (simp add: Erase_def)
next
  case True
  let ?buf = "m_buffer (m_data v)" and ?n = "m_size v"
  from assms have inv: "length ?buf = m_capacity (m_data v)" "?n \<le> m_capacity (m_data v)"
    "live_prefix ?buf ?n"
    by (simp_all add: Vector_inv_iff)
  obtain r buf' where run: "std_move_loop T ?buf (Suc p) p (?n - Suc p) = (r, buf')"
    by (cases "std_move_loop T ?buf (Suc p) p (?n - Suc p)")
  from True have "p + (?n - Suc p) \<le> ?n" by simp
  from std_move_loop_live[OF inv(3) this run] have b: "length buf' = length ?buf" "live_prefix buf' ?n"
    by simp_all
  show ?thesis
  proof (cases r)
    case (Some e)
    with run True b inv show ?thesis
      by (simp add: Erase_def std_move_def Vector_inv_iff with_buffer_def)
  next
    case None
    from True have "?n = Suc (?n - 1)" by simp
    with b(2) have "live_prefix (buf'[?n - 1 := None]) (?n - 1)"
      by (metis live_prefix_shrink)
    with None run True b inv show ?thesis
      by (simp add: Erase_def std_move_def Vector_inv_iff with_buffer_def destroy_at_def)
  qed
qed


lemma PopBack_inv:
  assumes "Vector_inv v"
  shows "Vector_inv (PopBack v)"
proof (cases "0 < m_size v")
  case False
  with assms show ?thesis by (simp add: PopBack_def)
next
  case True
  from assms have iv: "length (m_buffer (m_data v)) = m_capacity (m_data v)"
    "m_size v \<le> m_capacity (m_data v)" "live_prefix (m_buffer (m_data v)) (m_size v)"
    by (simp_all add: Vector_inv_iff)
  from True have "m_size v = Suc (m_size v - 1)" by simp
  with iv(3) have "live_prefix ((m_buffer (m_data v))[m_size v - 1 := None]) (m_size v - 1)"
    by (metis live_prefix_shrink)
  with True iv show ?thesis
    by (simp add: PopBack_def Vector_inv_iff destroy_at_def)
qed


lemma Emplace_realloc_returns_inv:
  assumes inv: "Vector_inv v" and p: "p \<le> m_size v"
    and res: "Emplace_realloc T p a v = Result (Inr u) v' l"
  shows "Vector_inv \<lparr>m_data = m_data v', m_size = m_size v' + 1\<rparr>"
proof -
  let ?buf = "m_buffer (m_data v)" and ?n = "m_size v"
  define N where "N = (if ?n = 0 then 1 else ?n * 2)"
  have nN: "?n < N" by (simp add: N_def)
  from res obtain new_data where ctor: "RawMemory_ctor T N = Inr new_data"
    by (cases "RawMemory_ctor T N") (simp_all add: Emplace_realloc_def N_def)
  then have cap: "m_capacity new_data = N"
    by (simp add: RawMemory_ctor_Inr)
  define k where "k = size_t_mult N (sizeof_T T) div sizeof_T T"
  from nN have "N \<noteq> 0" by simp
  with ctor have blk: "m_buffer new_data = replicate k None"
    unfolding k_def by (rule RawMemory_ctor_length)
  from res ctor obtain x where x: "construct T a = Inr x"
    by (cases "construct T a") (simp_all add: Emplace_realloc_def N_def[symmetric])
  from res ctor x blk have pk: "p < k"
    by (cases "p < k") (simp_all add: Emplace_realloc_def N_def[symmetric])
  define e0 where "e0 = construct_at (replicate k (None :: 'a option)) p x"
  have le0: "length e0 = k" by (simp add: e0_def)
  have room: "?n + 1 \<le> k"
  proof (cases "nothrow_move_constructible T \<or> \<not> copy_constructible T")
    case True
    obtain r1 s1 d1 where m1: "uninitialized_move_n T ?buf 0 p e0 0 = (r1, s1, d1)"
      by (cases "uninitialized_move_n T ?buf 0 p e0 0")
    obtain r2 s2 d2 where m2: "uninitialized_move_n T s1 p (?n - p) d1 (p + 1) = (r2, s2, d2)"
      by (cases "uninitialized_move_n T s1 p (?n - p) d1 (p + 1)")
    from res ctor x True m1 m2 blk pk have r: "r1 = None" "r2 = None"
      by (auto simp: Emplace_realloc_def N_def[symmetric] e0_def split: option.splits prod.splits)
    from m1 r(1) have "uninitialized_move_loop T ?buf 0 e0 0 0 p = (None, s1, d1)"
      by (simp add: uninitialized_move_n_def)
    from uninitialized_move_loop_live[OF this] le0 have l1: "length d1 = k" by simp
    from m2 r(2) have "uninitialized_move_loop T s1 p d1 (p + 1) (p + 1) (?n - p) = (None, s2, d2)"
      by (simp add: uninitialized_move_n_def)
    from uninitialized_move_loop_bound[OF this] l1 pk p show ?thesis by simp
  next
    case False
    obtain r1 d1 where c1: "uninitialized_copy_n T ?buf 0 p e0 0 = (r1, d1)"
      by (cases "uninitialized_copy_n T ?buf 0 p e0 0")
    obtain r2 d2 where c2: "uninitialized_copy_n T ?buf p (?n - p) d1 (p + 1) = (r2, d2)"
      by (cases "uninitialized_copy_n T ?buf p (?n - p) d1 (p + 1)")
    from res ctor x False c1 c2 blk pk have r: "r1 = None" "r2 = None"
      by (auto simp: Emplace_realloc_def N_def[symmetric] e0_def split: option.splits prod.splits)
    from uninitialized_copy_n_live[OF c1[unfolded r]] le0 have l1: "length d1 = k" by simp
    from c2 r(2) have "uninitialized_copy_loop T ?buf p d1 (p + 1) (p + 1) (?n - p) = (None, d2)"
      by (simp add: uninitialized_copy_n_def)
    from uninitialized_copy_loop_success[OF this] l1 pk p show ?thesis by simp
  qed
  from room have "k = N"
    unfolding k_def by (rule doubled_block_no_wrap) (simp add: N_def)
  with blk cap have nd: "m_buffer new_data = replicate N None" "m_capacity new_data = N"
    by simp_all
  from p nN have pN: "p < N" by simp
  define d0 where "d0 = construct_at (replicate N (None :: 'a option)) p x"
  have l0: "length d0 = N" by (simp add: d0_def)
  have n0: "\<forall>i<N. d0 ! i \<noteq> None \<longleftrightarrow> i = p"
    using p nN by (auto simp: d0_def construct_at_def nth_list_update)
  have "\<exists>d2. m_data v' = \<lparr>m_buffer = d2, m_capacity = N\<rparr> \<and> m_size v' = ?n \<and>
          length d2 = N \<and> live_prefix d2 (Suc ?n)"
  proof (cases "nothrow_move_constructible T \<or> \<not> copy_constructible T")
    case True
    obtain r1 s1 d1 where m1: "uninitialized_move_n T ?buf 0 p d0 0 = (r1, s1, d1)"
      by (cases "uninitialized_move_n T ?buf 0 p d0 0")
    obtain r2 s2 d2 where m2: "uninitialized_move_n T s1 p (?n - p) d1 (p + 1) = (r2, s2, d2)"
      by (cases "uninitialized_move_n T s1 p (?n - p) d1 (p + 1)")
    from res ctor x True m1 m2 nd pN have r: "r1 = None" "r2 = None"
      and v': "v' = fst (destroy_and_adopt (with_buffer v s2) \<lparr>m_buffer = d2, m_capacity = N\<rparr>)"
      by (auto simp: Emplace_realloc_def N_def[symmetric] d0_def split: option.splits prod.splits)
    from m1 r(1) have "uninitialized_move_loop T ?buf 0 d0 0 0 p = (None, s1, d1)"
      by (simp add: uninitialized_move_n_def)
    from uninitialized_move_loop_live[OF this] l0 have 1: "length d1 = N"
      "\<forall>i<N. d1 ! i \<noteq> None \<longleftrightarrow> (0 \<le> i \<and> i < 0 + p) \<or> d0 ! i \<noteq> None"
      by simp_all
    from m2 r(2) have "uninitialized_move_loop T s1 p d1 (p + 1) (p + 1) (?n - p) = (None, s2, d2)"
      by (simp add: uninitialized_move_n_def)
    from uninitialized_move_loop_live[OF this] 1(1) have 2: "length d2 = N"
      "\<forall>i<N. d2 ! i \<noteq> None \<longleftrightarrow> (p + 1 \<le> i \<and> i < p + 1 + (?n - p)) \<or> d1 ! i \<noteq> None"
      by simp_all
    from two_phase_fill_live[OF l0 n0 1 2 p] 2(1) v' show ?thesis
      by (simp add: destroy_and_adopt_def RawMemory_Swap_def with_buffer_def)
  next
    case False
    obtain r1 d1 where c1: "uninitialized_copy_n T ?buf 0 p d0 0 = (r1, d1)"
      by (cases "uninitialized_copy_n T ?buf 0 p d0 0")
    obtain r2 d2 where c2: "uninitialized_copy_n T ?buf p (?n - p) d1 (p + 1) = (r2, d2)"
      by (cases "uninitialized_copy_n T ?buf p (?n - p) d1 (p + 1)")
    from res ctor x False c1 c2 nd pN have r: "r1 = None" "r2 = None"
      and v': "v' = fst (destroy_and_adopt v \<lparr>m_buffer = d2, m_capacity = N\<rparr>)"
      by (auto simp: Emplace_realloc_def N_def[symmetric] d0_def split: option.splits prod.splits)
    from uninitialized_copy_n_live[OF c1[unfolded r]] l0 have 1: "length d1 = N"
      "\<forall>i<N. d1 ! i \<noteq> None \<longleftrightarrow> (0 \<le> i \<and> i < 0 + p) \<or> d0 ! i \<noteq> None"
      by simp_all
    from uninitialized_copy_n_live[OF c2[unfolded r]] 1(1) have 2: "length d2 = N"
      "\<forall>i<N. d2 ! i \<noteq> None \<longleftrightarrow> (p + 1 \<le> i \<and> i < p + 1 + (?n - p)) \<or> d1 ! i \<noteq> None"
      by simp_all
    from two_phase_fill_live[OF l0 n0 1 2 p] 2(1) v' show ?thesis
      by (simp add: destroy_and_adopt_def RawMemory_Swap_def with_buffer_def)
  qed
  then obtain d2 where "m_data v' = \<lparr>m_buffer = d2, m_capacity = N\<rparr>" "m_size v' = ?n"
    "length d2 = N" "live_prefix d2 (Suc ?n)" by blast
  with nN show ?thesis by (simp add: Vector_inv_iff)
qed


lemma Emplace_realloc_throws_inv:
  assumes inv: "Vector_inv v"
    and res: "Emplace_realloc T p a v = Result (Inl e) v' l"
  shows "Vector_inv v'"
proof -
  let ?buf = "m_buffer (m_data v)" and ?n = "m_size v"
  define N where "N = (if ?n = 0 then 1 else ?n * 2)"
  from inv have iv: "length ?buf = m_capacity (m_data v)" "?n \<le> m_capacity (m_data v)"
    "live_prefix ?buf ?n"
    by (simp_all add: Vector_inv_iff)
  have keep: "Vector_inv (with_buffer v s)"
    if "length s = length ?buf" "\<forall>i<length ?buf. s ! i \<noteq> None \<longleftrightarrow> ?buf ! i \<noteq> None" for s
    using live_prefix_same_liveness[OF iv(3) that] iv that(1)
    by (simp add: Vector_inv_iff with_buffer_def)
  show ?thesis
  proof (cases "RawMemory_ctor T N")
    case (Inl e')
    with res inv show ?thesis by (simp add: Emplace_realloc_def N_def)
  next
    case (Inr new_data)
    show ?thesis
    proof (cases "construct T a")
      case (Inl e')
      with Inr res inv show ?thesis by (simp add: Emplace_realloc_def N_def[symmetric])
    next
      case x: (Inr x)
      define d0 where "d0 = construct_at (m_buffer new_data) p x"
      consider (outside) "\<not> p < length (m_buffer new_data)"
        | (moving) "p < length (m_buffer new_data)"
            "nothrow_move_constructible T \<or> \<not> copy_constructible T"
        | (copying) "p < length (m_buffer new_data)"
            "\<not> (nothrow_move_constructible T \<or> \<not> copy_constructible T)"
        by blast
      then show ?thesis
      proof cases
        case outside
        with res Inr x inv show ?thesis by (simp add: Emplace_realloc_def N_def[symmetric])
      next
        case moving
        note True = moving(2)
        obtain r1 s1 d1 where m1: "uninitialized_move_n T ?buf 0 p d0 0 = (r1, s1, d1)"
          by (cases "uninitialized_move_n T ?buf 0 p d0 0")
        obtain r2 s2 d2 where m2: "uninitialized_move_n T s1 p (?n - p) d1 (p + 1) = (r2, s2, d2)"
          by (cases "uninitialized_move_n T s1 p (?n - p) d1 (p + 1)")
        from m1 have 1: "length s1 = length ?buf"
          "\<forall>i<length ?buf. s1 ! i \<noteq> None \<longleftrightarrow> ?buf ! i \<noteq> None"
          using uninitialized_move_loop_source[of T ?buf 0 d0 0 0 p r1 s1 d1]
          by (simp_all add: uninitialized_move_n_def)
        from m2 have "length s2 = length s1"
          "\<forall>i<length s1. s2 ! i \<noteq> None \<longleftrightarrow> s1 ! i \<noteq> None"
          using uninitialized_move_loop_source[of T s1 p d1 "p + 1" "p + 1" "?n - p" r2 s2 d2]
          by (simp_all add: uninitialized_move_n_def)
        with 1 have 2: "length s2 = length ?buf"
          "\<forall>i<length ?buf. s2 ! i \<noteq> None \<longleftrightarrow> ?buf ! i \<noteq> None"
          by simp_all
        from res Inr x True moving(1) m1 m2 have "v' = with_buffer v s1 \<or> v' = with_buffer v s2"
          by (auto simp: Emplace_realloc_def N_def[symmetric] d0_def destroy_and_adopt_def
              split: option.splits prod.splits)
        with keep[OF 1] keep[OF 2] show ?thesis by auto
      next
        case copying
        note False = copying(2)
        obtain r1 d1 where c1: "uninitialized_copy_n T ?buf 0 p d0 0 = (r1, d1)"
          by (cases "uninitialized_copy_n T ?buf 0 p d0 0")
        obtain r2 d2 where c2: "uninitialized_copy_n T ?buf p (?n - p) d1 (p + 1) = (r2, d2)"
          by (cases "uninitialized_copy_n T ?buf p (?n - p) d1 (p + 1)")
        from res Inr x False copying(1) c1 c2 have "v' = v"
          by (auto simp: Emplace_realloc_def N_def[symmetric] d0_def destroy_and_adopt_def
              split: option.splits prod.splits)
        with inv show ?thesis by simp
      qed
    qed
  qed
qed


lemma Emplace_inplace_inv:
  assumes inv: "Vector_inv v" and lt: "m_size v < m_capacity (m_data v)" and p: "p \<le> m_size v"
    and res: "Emplace_inplace T p a v = Result r v' l"
  shows "(case r of
            Inr u \<Rightarrow> Vector_inv \<lparr>m_data = m_data v', m_size = m_size v' + 1\<rparr>
          | Inl e \<Rightarrow> m_size v = 0 \<or> \<not> isl (construct T a) \<longrightarrow> Vector_inv v')"
proof -
  let ?buf = "m_buffer (m_data v)" and ?n = "m_size v" and ?cap = "m_capacity (m_data v)"
  from inv have iv: "length ?buf = ?cap" "live_prefix ?buf ?n"
    by (simp_all add: Vector_inv_iff)
  have wb: "with_buffer v ?buf = v" by (simp add: with_buffer_def)
  have grown: "Vector_inv \<lparr>m_data = m_data (with_buffer v b), m_size = m_size (with_buffer v b) + 1\<rparr>"
    if "length b = ?cap" "live_prefix b (Suc ?n)" for b
    using that lt by (simp add: Vector_inv_iff with_buffer_def)
  have kept: "Vector_inv (with_buffer v b)" if "length b = ?cap" "live_prefix b ?n" for b
    using that lt by (simp add: Vector_inv_iff with_buffer_def)
  show ?thesis
  proof (cases "?n = 0")
    case True
    with p have p0: "p = 0" by simp
    show ?thesis
    proof (cases "construct T a")
      case (Inl e)
      with True res inv show ?thesis by (auto simp: Emplace_inplace_def)
    next
      case (Inr x)
      from iv(2) True have "live_prefix (?buf[0 := Some x]) (Suc ?n)"
        by (metis live_prefix_extend)
      from grown[OF _ this] iv(1) Inr True res p0 show ?thesis
        by (auto simp: Emplace_inplace_def construct_at_def)
    qed
  next
    case nz: False
    obtain r0 b0 where mc: "move_construct_at T ?buf (?n - 1) ?n = (r0, b0)"
      by (cases "move_construct_at T ?buf (?n - 1) ?n")
    show ?thesis
    proof (cases r0)
      case (Some e)
      with mc have "b0 = ?buf"
        by (auto simp: move_construct_at_def split: option.splits if_splits)
      with Some mc nz res inv wb show ?thesis by (auto simp: Emplace_inplace_def)
    next
      case None
      with mc obtain x0 where b0: "b0 = (?buf[?n - 1 := Some (moved_from T x0)])[?n := Some x0]"
        by (auto simp: move_construct_at_def construct_at_def split: option.splits if_splits)
      from nz have "?n - 1 < ?n" by simp
      with iv(2) have "live_prefix (?buf[?n - 1 := Some (moved_from T x0)]) ?n"
        by (rule live_prefix_update_live)
      then have live0: "live_prefix b0 (Suc ?n)" unfolding b0 by (rule live_prefix_extend)
      have len0: "length b0 = ?cap" using iv(1) by (simp add: b0)
      obtain r1 b1 where mb: "move_backward_loop T b0 ?n (?n + 1) (?n - p) = (r1, b1)"
        by (cases "move_backward_loop T b0 ?n (?n + 1) (?n - p)")
      have "?n + 1 \<le> Suc ?n" "?n - p \<le> ?n + 1" by simp_all
      from move_backward_loop_live[OF live0 this mb] len0
      have len1: "length b1 = ?cap" and live1: "live_prefix b1 (Suc ?n)" by simp_all
      show ?thesis
      proof (cases r1)
        case (Some e)
        from live1 have "live_prefix (b1[?n := None]) ?n" by (rule live_prefix_shrink)
        from kept[OF _ this] len1 Some mb mc None nz res show ?thesis
          by (auto simp: Emplace_inplace_def move_backward_def destroy_at_def)
      next
        case n1: None
        show ?thesis
        proof (cases "construct T a")
          case (Inl e)
          with n1 mb mc None nz res show ?thesis
            by (auto simp: Emplace_inplace_def move_backward_def)
        next
          case (Inr x)
          from p have "p < Suc ?n" by simp
          with live1 have "live_prefix (b1[p := Some x]) (Suc ?n)" by (rule live_prefix_update_live)
          from grown[OF _ this] len1 Inr n1 mb mc None nz res show ?thesis
            by (auto simp: Emplace_inplace_def move_backward_def destroy_at_def construct_at_def)
        qed
      qed
    qed
  qed
qed


lemma Emplace_returns_inv:
  assumes "Vector_inv v" and "outcome (Emplace T p a v) = Inr r"
  shows "Vector_inv (vec (Emplace T p a v))"
proof -
  from assms(2) have p: "p \<le> m_size v" by (auto simp: Emplace_def split: if_splits)
  from assms(1) have le: "m_size v \<le> m_capacity (m_data v)" by (simp add: Vector_inv_def)
  show ?thesis
  proof (cases "m_size v = Capacity v")
    case True
    obtain o' v' l where e: "Emplace_realloc T p a v = Result o' v' l"
      by (cases "Emplace_realloc T p a v")
    with assms(2) p True obtain u where "o' = Inr u"
      by (cases o') (simp_all add: Emplace_def)
    with e Emplace_realloc_returns_inv[OF assms(1) p, of T a u v' l] p True show ?thesis
      by (simp add: Emplace_def)
  next
    case False
    with le have lt: "m_size v < m_capacity (m_data v)" by (simp add: Capacity_def)
    obtain o' v' l where e: "Emplace_inplace T p a v = Result o' v' l"
      by (cases "Emplace_inplace T p a v")
    with assms(2) p False obtain u where "o' = Inr u"
      by (cases o') (simp_all add: Emplace_def)
    with e Emplace_inplace_inv[OF assms(1) lt p e] p False show ?thesis
      by (simp add: Emplace_def)
  qed
qed


lemma Emplace_throws_inv:
  assumes "Vector_inv v" and "outcome (Emplace T p a v) = Inl e"
    and "m_size v = Capacity v \<or> m_size v = 0 \<or> \<not> isl (construct T a)"
  shows "Vector_inv (vec (Emplace T p a v))"
proof (cases "p \<le> m_size v")
  case False
  with assms(1) show ?thesis by (simp add: Emplace_def)
next
  case p: True
  from assms(1) have le: "m_size v \<le> m_capacity (m_data v)" by (simp add: Vector_inv_def)
  show ?thesis
  proof (cases "m_size v = Capacity v")
    case True
    obtain o' v' l where r: "Emplace_realloc T p a v = Result o' v' l"
      by (cases "Emplace_realloc T p a v")
    with assms(2) p True obtain e' where "o' = Inl e'"
      by (cases o') (simp_all add: Emplace_def)
    with r Emplace_realloc_throws_inv[OF assms(1), of T p a e' v' l] p True show ?thesis
      by (simp add: Emplace_def)
  next
    case False
    with le have lt: "m_size v < m_capacity (m_data v)" by (simp add: Capacity_def)
    obtain o' v' l where r: "Emplace_inplace T p a v = Result o' v' l"
      by (cases "Emplace_inplace T p a v")
    with assms(2) p False obtain e' where "o' = Inl e'"
      by (cases o') (simp_all add: Emplace_def)
    with r Emplace_inplace_inv[OF assms(1) lt p r] assms(3) p False show ?thesis
      by (auto simp: Emplace_def)
  qed
qed


lemma PushBack_inv:
  assumes "Vector_inv v"
  shows "Vector_inv (vec (PushBack T a v))"
proof (cases "m_size v = Capacity v")
  case True
  have "Vector_inv (vec (Emplace T (m_size v) a v))"
  proof (cases "outcome (Emplace T (m_size v) a v)")
    case (Inl e)
    from Emplace_throws_inv[OF assms Inl] True show ?thesis by simp
  next
    case (Inr r)
    from Emplace_returns_inv[OF assms Inr] show ?thesis .
  qed
  with True show ?thesis
    by (cases "Emplace T (m_size v) a v"; cases "outcome (Emplace T (m_size v) a v)")
      (simp_all add: PushBack_def EmplaceBack_def)
next
  case False
  from assms have iv: "length (m_buffer (m_data v)) = m_capacity (m_data v)"
    "m_size v \<le> m_capacity (m_data v)" "live_prefix (m_buffer (m_data v)) (m_size v)"
    by (simp_all add: Vector_inv_iff)
  show ?thesis
  proof (cases "construct T a")
    case (Inl e)
    with False assms show ?thesis by (simp add: PushBack_def EmplaceBack_def)
  next
    case (Inr x)
    from iv(3) have "live_prefix ((m_buffer (m_data v))[m_size v := Some x]) (Suc (m_size v))"
      by (rule live_prefix_extend)
    with Inr False iv show ?thesis
      by (simp add: PushBack_def EmplaceBack_def Vector_inv_iff with_buffer_def construct_at_def
          Capacity_def)
  qed
qed


lemma apply_operation_inv:
  assumes "Vector_inv v" and "apply_operation T x v = (None, v')"
  shows "Vector_inv v'"
proof (cases x)
  case (Op_PushBack a)
  with assms(2) have "v' = vec (PushBack T a v)"
    by (cases "PushBack T a v"; cases "outcome (PushBack T a v)") auto
  with assms(1) show ?thesis by (simp add: PushBack_inv)
next
  case Op_PopBack
  with assms show ?thesis by (auto simp: PopBack_inv)
next
  case (Op_Insert p a)
  with assms(2) obtain r where "outcome (Emplace T p a v) = Inr r" "v' = vec (Emplace T p a v)"
    by (cases "Emplace T p a v"; cases "outcome (Emplace T p a v)") auto
  with assms(1) show ?thesis by (simp add: Emplace_returns_inv)
next
  case (Op_Erase p)
  with assms(2) have "v' = vec (Erase T p v)"
    by (cases "Erase T p v"; cases "outcome (Erase T p v)") auto
  with assms(1) show ?thesis by (simp add: Erase_inv)
qed


lemma run_operations_inv:
  "Vector_inv v \<Longrightarrow> list_all Vector_inv (run_operations T xs v)"
proof (induction xs arbitrary: v)
  case Nil
  then show ?case by simp
next
  case (Cons x xs)
  obtain r v' where a: "apply_operation T x v = (r, v')" by (cases "apply_operation T x v")
  show ?case
  proof (cases r)
    case (Some e)
    with a show ?thesis by simp
  next
    case None
    with a Cons.prems have "Vector_inv v'" by (auto intro: apply_operation_inv)
    with Cons.IH[OF this] a None show ?thesis by simp
  qed
qed


lemma run_operations_Size_le_Capacity:
  "Vector_inv v \<Longrightarrow> list_all (\<lambda>v'. Size v' \<le> Capacity v') (run_operations T xs v)"
  using run_operations_inv[of v T xs]
  by (auto simp: list_all_iff Vector_inv_def Size_def Capacity_def)


lemma Emplace_Size_le_Capacity:
  assumes "Vector_inv v"
  shows "Size (vec (Emplace T p a v)) \<le> Capacity (vec (Emplace T p a v))"
proof (cases "outcome (Emplace T p a v)")
  case (Inr r)
  from Emplace_returns_inv[OF assms Inr] show ?thesis
    by (simp add: Vector_inv_def Size_def Capacity_def)
next
  case (Inl e)
  show ?thesis
  proof (cases "m_size v = Capacity v \<or> \<not> p \<le> m_size v")
    case True
    then have "Vector_inv (vec (Emplace T p a v))"
    proof
      assume "m_size v = Capacity v"
      with Emplace_throws_inv[OF assms Inl] show ?thesis by simp
    next
      assume "\<not> p \<le> m_size v"
      with assms show ?thesis by (simp add: Emplace_def)
    qed
    then show ?thesis by (simp add: Vector_inv_def Size_def Capacity_def)
  next
    case False
    obtain o' v' l where r: "Emplace_inplace T p a v = Result o' v' l"
      by (cases "Emplace_inplace T p a v")
    with Inl False obtain e' where "o' = Inl e'"
      by (cases o') (simp_all add: Emplace_def)
    with r False Emplace_inplace_shape_any[of T p a v] assms show ?thesis
      by (simp add: Emplace_def Size_def Capacity_def Vector_inv_def)
  qed
qed


lemma apply_operation_Size_le_Capacity:
  assumes "Vector_inv v"
  shows "Size (snd (apply_operation T x v)) \<le> Capacity (snd (apply_operation T x v))"
proof (cases x)
  case (Op_PushBack a)
  have "snd (apply_operation T (Op_PushBack a) v) = vec (PushBack T a v)"
    by (cases "PushBack T a v"; cases "outcome (PushBack T a v)") auto
  with Op_PushBack PushBack_inv[OF assms, of T a] show ?thesis
    by (simp add: Vector_inv_def Size_def Capacity_def)
next
  case Op_PopBack
  with PopBack_inv[OF assms] show ?thesis
    by (simp add: Vector_inv_def Size_def Capacity_def)
next
  case (Op_Insert p a)
  have "snd (apply_operation T (Op_Insert p a) v) = vec (Emplace T p a v)"
    by (cases "Emplace T p a v"; cases "outcome (Emplace T p a v)") auto
  with Op_Insert Emplace_Size_le_Capacity[OF assms, of T p a] show ?thesis by simp
next
  case (Op_Erase p)
  have "snd (apply_operation T (Op_Erase p) v) = vec (Erase T p v)"
    by (cases "Erase T p v"; cases "outcome (Erase T p v)") auto
  with Op_Erase Erase_inv[OF assms, of T p] show ?thesis
    by (simp add: Vector_inv_def Size_def Capacity_def)
qed


text \<open>
  Claim C4. The claim says that after every operation the first \<open>size_\<close> slots hold live
  objects and the other slots are uninitialised. In the branch with spare capacity, \<open>Emplace\<close>
  destroys the object at \<open>position\<close> (line 272) and then constructs the new element there
  (line 274) outside any handler. Take a well-formed vector \<open>[1]\<close> with capacity 2, of a type
  whose copy constructor throws on the value 9, and insert 9 at position 0: the call ends with
  the exception, slot 0 is uninitialised, slot 1 holds a live object and \<open>size_\<close> is 1.
\<close>


theorem Insert_throw_breaks_invariant:
  "Vector_inv (mk_vector 2 [1::int]) \<and>
   Insert (throwing_copy [9::int]) 0 9 (mk_vector 2 [1]) =
     Result (Inl element_exception)
       \<lparr>m_data = \<lparr>m_buffer = [None, Some 1], m_capacity = 2\<rparr>, m_size = 1\<rparr> [] \<and>
   \<not> Vector_inv (vec (Insert (throwing_copy [9::int]) 0 9 (mk_vector 2 [1])))"
  by code_simp

end
